theory Spec2Isabelle
  imports Main
begin

section \<open>Python lists and exceptions\<close>

text \<open>
  The solver works on Python lists of unbounded integers. A read or a write at an index
  outside the list raises \<^verbatim>\<open>IndexError\<close>; a negative index counts from the end of the
  list. Both are part of the model: a function that may raise returns a sum, with the
  exception on the left.
\<close>

datatype py_error = IndexError

definition py_norm :: "'a list \<Rightarrow> int \<Rightarrow> int" where
  "py_norm xs i = (if i < 0 then int (length xs) + i else i)"

definition py_get :: "'a list \<Rightarrow> int \<Rightarrow> py_error + 'a" where
  "py_get xs i =
     (let j = py_norm xs i
      in if 0 \<le> j \<and> j < int (length xs) then Inr (xs ! nat j) else Inl IndexError)"

definition py_set :: "'a list \<Rightarrow> int \<Rightarrow> 'a \<Rightarrow> py_error + 'a list" where
  "py_set xs i v =
     (let j = py_norm xs i
      in if 0 \<le> j \<and> j < int (length xs) then Inr (xs[nat j := v]) else Inl IndexError)"

text \<open>\<^verbatim>\<open>range(a, b)\<close> is the list of the integers from \<open>a\<close> up to \<open>b - 1\<close>.\<close>

definition py_range :: "int \<Rightarrow> int \<Rightarrow> int list" where
  "py_range a b = [a..b - 1]"

section \<open>The overlap deducer (strategies/overlap.py)\<close>

text \<open>
  \<^verbatim>\<open>pref\<close> is built by the loop \<^verbatim>\<open>pref[i] = pref[i - 1] + runs[i - 1]\<close>, starting from
  \<^verbatim>\<open>pref[0] = 0\<close>: the list of the running sums of \<^verbatim>\<open>runs\<close>.
\<close>

fun prefix_sums :: "int \<Rightarrow> int list \<Rightarrow> int list" where
  "prefix_sums acc [] = [acc]"
| "prefix_sums acc (r # rs) = acc # prefix_sums (acc + r) rs"

text \<open>
  One iteration of the loop over the runs: \<open>forced\<close> is the list built so far, \<open>i\<close> the
  index of the run. The indices \<open>i\<close> and \<open>k\<close> are within \<^verbatim>\<open>runs\<close> and \<^verbatim>\<open>pref\<close> by
  construction of the loop (\<^verbatim>\<open>range(k)\<close>, \<^verbatim>\<open>len(pref) = k + 1\<close>).
\<close>

definition overlap_step :: "int \<Rightarrow> int list \<Rightarrow> int list \<Rightarrow> int \<Rightarrow> int list \<Rightarrow> nat \<Rightarrow> int list" where
  "overlap_step L runs pref S forced i =
     (let r = runs ! i;
          overlap_len = r - S
      in if overlap_len \<le> 0 then forced
         else
           let k = length runs;
               earliest_start = pref ! i + int i;
               latest_start = L - ((pref ! k - pref ! i) + (int k - 1 - int i));
               start = latest_start;
               end = earliest_start + r - 1
           in if start \<le> end then forced @ py_range start (end + 1) else forced)"

definition overlap_fill_line :: "int \<Rightarrow> int list \<Rightarrow> int list" where
  "overlap_fill_line L runs =
     (if runs = [] then []
      else
        let k = length runs;
            req = sum_list runs + (int k - 1);
            S = L - req
        in if S < 0 then []
           else
             let pref = prefix_sums 0 runs;
                 forced = foldl (overlap_step L runs pref S) [] [0..<k]
             in sorted_list_of_set (set forced))"

section \<open>The line possibility generator (strategies/possibilities.py)\<close>

text \<open>
  \<^verbatim>\<open>for x in xs: ...\<close> over a state that the body updates and where the body may raise:
  the loop stops at the first exception.
\<close>

fun for_each :: "('a \<Rightarrow> 's \<Rightarrow> py_error + 's) \<Rightarrow> 'a list \<Rightarrow> 's \<Rightarrow> py_error + 's" where
  "for_each f [] s = Inr s"
| "for_each f (x # xs) s = (case f x s of Inl e \<Rightarrow> Inl e | Inr s' \<Rightarrow> for_each f xs s')"

text \<open>
  \<^verbatim>\<open>ok_block(start, size)\<close>: the loop returns at the first known-empty cell, so the cells
  after it are not read.
\<close>

fun ok_block_cells :: "int list \<Rightarrow> int list \<Rightarrow> py_error + bool" where
  "ok_block_cells known [] = Inr True"
| "ok_block_cells known (i # is) =
     (case py_get known i of
        Inl e \<Rightarrow> Inl e
      | Inr k \<Rightarrow> if k = 0 then Inr False else ok_block_cells known is)"

definition ok_block :: "int \<Rightarrow> int list \<Rightarrow> int \<Rightarrow> int \<Rightarrow> py_error + bool" where
  "ok_block L known start sz =
     (if start < 0 \<or> start + sz > L then Inr False
      else ok_block_cells known (py_range start (start + sz)))"

text \<open>
  \<^verbatim>\<open>consistent_fill(line)\<close>: \<^verbatim>\<open>all(...)\<close> stops at the first cell that disagrees, and
  \<^verbatim>\<open>line[i]\<close> is read only when \<^verbatim>\<open>known[i]\<close> is not \<open>-1\<close>.
\<close>

fun consistent_cells :: "int list \<Rightarrow> int list \<Rightarrow> int list \<Rightarrow> py_error + bool" where
  "consistent_cells known line [] = Inr True"
| "consistent_cells known line (i # is) =
     (case py_get known i of
        Inl e \<Rightarrow> Inl e
      | Inr k \<Rightarrow>
          if k = - 1 then consistent_cells known line is
          else (case py_get line i of
                  Inl e \<Rightarrow> Inl e
                | Inr v \<Rightarrow> if k = v then consistent_cells known line is else Inr False))"

definition consistent_fill :: "int \<Rightarrow> int list \<Rightarrow> int list \<Rightarrow> py_error + bool" where
  "consistent_fill L known line = consistent_cells known line (py_range 0 L)"

text \<open>\<^verbatim>\<open>for i in range(position, position + run): line[i] = 1\<close>\<close>

definition write_block :: "int list \<Rightarrow> int \<Rightarrow> int \<Rightarrow> py_error + int list" where
  "write_block line position run =
     for_each (\<lambda>i ln. py_set ln i 1) (py_range position (position + run)) line"

text \<open>
  \<^verbatim>\<open>index_after_run < length and known[index_after_run] == 1\<close>: the cell is read only
  when the index is below the length.
\<close>

definition gap_is_filled :: "int \<Rightarrow> int list \<Rightarrow> int \<Rightarrow> py_error + bool" where
  "gap_is_filled L known index_after_run =
     (if index_after_run < L
      then (case py_get known index_after_run of Inl e \<Rightarrow> Inl e | Inr k \<Rightarrow> Inr (k = 1))
      else Inr False)"

text \<open>
  \<^verbatim>\<open>if position + run < length: gap_old = line[index_after_run]; line[index_after_run] = 0\<close>
\<close>

definition clear_gap :: "int \<Rightarrow> int list \<Rightarrow> int \<Rightarrow> py_error + int list" where
  "clear_gap L line index_after_run =
     (if index_after_run < L
      then (case py_get line index_after_run of
              Inl e \<Rightarrow> Inl e
            | Inr gap_old \<Rightarrow> py_set line index_after_run 0)
      else Inr line)"

text \<open>
  The loop that sets \<^verbatim>\<open>ok\<close>: it breaks at the first cell known filled that the line
  leaves empty; \<^verbatim>\<open>line[i]\<close> is read only when \<^verbatim>\<open>known[i] == 1\<close>.
\<close>

fun known_ones_covered :: "int list \<Rightarrow> int list \<Rightarrow> int list \<Rightarrow> py_error + bool" where
  "known_ones_covered known line [] = Inr True"
| "known_ones_covered known line (i # is) =
     (case py_get known i of
        Inl e \<Rightarrow> Inl e
      | Inr k \<Rightarrow>
          if k = 1
          then (case py_get line i of
                  Inl e \<Rightarrow> Inl e
                | Inr v \<Rightarrow> if v \<noteq> 1 then Inr False else known_ones_covered known line is)
          else known_ones_covered known line is)"

text \<open>
  \<^verbatim>\<open>place(run_idx, pos)\<close> with its \<^verbatim>\<open>while position <= max_start\<close> loop: \<open>position\<close> is
  the loop variable, and the patterns of one iteration are followed by those of the
  iterations after it. The generator is consumed whole (by \<^verbatim>\<open>list(...)\<close>), so an exception
  anywhere in the search is the result of the whole call.

  The source searches in one shared buffer \<^verbatim>\<open>line\<close>: it writes a block and a gap into it,
  recurses, and puts back the cells it saved in \<^verbatim>\<open>old\<close> and \<^verbatim>\<open>gap_old\<close>. The writes between
  saving and restoring touch the saved cells only, so after an iteration the buffer is
  what it was before. The model passes the buffer by value: the recursive call gets the
  written buffer, the next iteration the unwritten one.
\<close>

function place ::
  "int \<Rightarrow> int list \<Rightarrow> int list \<Rightarrow> int list \<Rightarrow> nat \<Rightarrow> int \<Rightarrow> int \<Rightarrow> py_error + int list list" where
  "place L runs known line run_idx pos position =
     (case py_get runs (int run_idx) of
        Inl e \<Rightarrow> Inl e
      | Inr run \<Rightarrow>
          let remaining = sum_list (drop run_idx runs) + (int (length runs) - 1 - int run_idx);
              max_start = L - remaining
          in if position \<le> max_start then
               (case ok_block L known position run of
                  Inl e \<Rightarrow> Inl e
                | Inr fits \<Rightarrow>
                    (case
                       (if fits then
                          (case write_block line position run of
                             Inl e \<Rightarrow> Inl e
                           | Inr line1 \<Rightarrow>
                               let index_after_run = position + run;
                                   next_pos = index_after_run + 1
                               in if int run_idx + 1 = int (length runs) then
                                    (case consistent_fill L known line1 of
                                       Inl e \<Rightarrow> Inl e
                                     | Inr c \<Rightarrow> Inr (if c then [line1] else []))
                                  else
                                    (case gap_is_filled L known index_after_run of
                                       Inl e \<Rightarrow> Inl e
                                     | Inr filled \<Rightarrow>
                                         if filled then Inr []
                                         else
                                           (case clear_gap L line1 index_after_run of
                                              Inl e \<Rightarrow> Inl e
                                            | Inr line2 \<Rightarrow>
                                                (case known_ones_covered known line2
                                                        (py_range pos (next_pos - 1)) of
                                                   Inl e \<Rightarrow> Inl e
                                                 | Inr ok \<Rightarrow>
                                                     if ok
                                                     then place L runs known line2 (run_idx + 1)
                                                            next_pos next_pos
                                                     else Inr []))))
                        else Inr [])
                     of
                       Inl e \<Rightarrow> Inl e
                     | Inr found \<Rightarrow>
                         (case place L runs known line run_idx pos (position + 1) of
                            Inl e \<Rightarrow> Inl e
                          | Inr rest \<Rightarrow> Inr (found @ rest))))
             else Inr [])"
  by pat_completeness auto
termination
proof (relation "measures [\<lambda>(L, runs, known, line, run_idx, pos, position). length runs - run_idx,
                          \<lambda>(L, runs, known, line, run_idx, pos, position).
                             nat (L - (sum_list (drop run_idx runs)
                                       + (int (length runs) - 1 - int run_idx)) - position + 1)]",
       goal_cases)
  case 1
  show ?case by simp
next
  case (2 L runs known line run_idx pos position run)
  then show ?case
    by (auto simp: py_get_def py_norm_def Let_def split: if_splits)
next
  case (3 L runs known line run_idx pos position run)
  then show ?case by auto
qed

declare place.simps [simp del]

text \<open>
  The generator itself. With no runs it yields the all-zero line when no cell is known
  filled. Otherwise, the loop on \<^verbatim>\<open>first_pos\<close> reads \<^verbatim>\<open>known[0]\<close> when \<open>0 > length\<close> and leaves
  at once; then the search starts with the first run at cursor 0 on the all-zero buffer.
\<close>

definition enumerate_line_patterns :: "int \<Rightarrow> int list \<Rightarrow> int list \<Rightarrow> py_error + int list list" where
  "enumerate_line_patterns L runs known =
     (if runs = [] then
        (if list_all (\<lambda>k. k = 0 \<or> k = - 1) known then Inr [replicate (nat L) 0] else Inr [])
      else
        (case (if 0 > L then (case py_get known 0 of Inl e \<Rightarrow> Inl e | Inr k \<Rightarrow> Inr (k = 1))
               else Inr False) of
           Inl e \<Rightarrow> Inl e
         | Inr first_known \<Rightarrow> place L runs known (replicate (nat L) 0) 0 0 0))"

section \<open>The possibility-based deducer (strategies/possibilities.py)\<close>

text \<open>
  \<^verbatim>\<open>for i, v in enumerate(pattern): if v == 1: ones_count[i] += 1\<close>, and the loop over the
  patterns around it.
\<close>

definition count_ones :: "int list \<Rightarrow> int list \<Rightarrow> py_error + int list" where
  "count_ones pattern ones_count =
     for_each (\<lambda>(i, v) oc.
                 if v = 1
                 then (case py_get oc (int i) of
                         Inl e \<Rightarrow> Inl e
                       | Inr n \<Rightarrow> py_set oc (int i) (n + 1))
                 else Inr oc)
              (enumerate 0 pattern) ones_count"

text \<open>
  The two comprehensions read \<^verbatim>\<open>ones_count[i]\<close> for \<open>i\<close> in \<^verbatim>\<open>range(length)\<close>;
  \<^verbatim>\<open>ones_count\<close> was created with \<open>length\<close> entries and the counting loop keeps its size.
\<close>

definition deduce_from_possibilities ::
  "int \<Rightarrow> int list \<Rightarrow> int list \<Rightarrow> py_error + (int list \<times> int list)" where
  "deduce_from_possibilities L runs known =
     (case enumerate_line_patterns L runs known of
        Inl e \<Rightarrow> Inl e
      | Inr patterns \<Rightarrow>
          if patterns = [] then Inr ([], [])
          else
            let len_patterns = int (length patterns)
            in case for_each count_ones patterns (replicate (nat L) 0) of
                 Inl e \<Rightarrow> Inl e
               | Inr ones_count \<Rightarrow>
                   let must_fill = filter (\<lambda>i. ones_count ! nat i = len_patterns) (py_range 0 L);
                       must_empty = filter (\<lambda>i. ones_count ! nat i = 0) (py_range 0 L)
                   in Inr (must_fill, must_empty))"

section \<open>The puzzle and the grid (dto.py)\<close>

record NonogramPuzzle =
  size_n :: int
  rows :: "int list list"
  cols :: "int list list"

text \<open>
  The working grid is a list of rows, each a list of cells: \<open>-1\<close> unknown, \<open>0\<close> empty,
  \<open>1\<close> filled. \<^verbatim>\<open>grid[r][c] = v\<close> writes into the row object; the rows of the grid that
  \<^verbatim>\<open>solve_nonogram\<close> builds are distinct objects, so the model replaces the row \<open>r\<close> of the
  grid by the updated row.
\<close>

definition grid_get :: "int list list \<Rightarrow> int \<Rightarrow> int \<Rightarrow> py_error + int" where
  "grid_get grid r c = (case py_get grid r of Inl e \<Rightarrow> Inl e | Inr row \<Rightarrow> py_get row c)"

definition grid_set :: "int list list \<Rightarrow> int \<Rightarrow> int \<Rightarrow> int \<Rightarrow> py_error + int list list" where
  "grid_set grid r c v =
     (case py_get grid r of
        Inl e \<Rightarrow> Inl e
      | Inr row \<Rightarrow> (case py_set row c v of Inl e \<Rightarrow> Inl e | Inr row' \<Rightarrow> py_set grid r row'))"

section \<open>The overlap pass (strategies/overlap.py)\<close>

text \<open>
  The state of a pass is the flag \<^verbatim>\<open>changed\<close> and the grid.
  \<^verbatim>\<open>if grid[r][c] == -1: grid[r][c] = 1; changed = True\<close>
\<close>

definition fill_if_unknown ::
  "int \<Rightarrow> int \<Rightarrow> bool \<times> int list list \<Rightarrow> py_error + (bool \<times> int list list)" where
  "fill_if_unknown r c s =
     (case s of (changed, grid) \<Rightarrow>
        (case grid_get grid r c of
           Inl e \<Rightarrow> Inl e
         | Inr v \<Rightarrow>
             if v = - 1
             then (case grid_set grid r c 1 of Inl e \<Rightarrow> Inl e | Inr grid' \<Rightarrow> Inr (True, grid'))
             else Inr (changed, grid)))"

definition overlap_row ::
  "NonogramPuzzle \<Rightarrow> int \<Rightarrow> bool \<times> int list list \<Rightarrow> py_error + (bool \<times> int list list)" where
  "overlap_row puzzle r s =
     (case py_get (rows puzzle) r of
        Inl e \<Rightarrow> Inl e
      | Inr runs \<Rightarrow>
          for_each (\<lambda>c. fill_if_unknown r c) (overlap_fill_line (size_n puzzle) runs) s)"

definition overlap_col ::
  "NonogramPuzzle \<Rightarrow> int \<Rightarrow> bool \<times> int list list \<Rightarrow> py_error + (bool \<times> int list list)" where
  "overlap_col puzzle c s =
     (case py_get (cols puzzle) c of
        Inl e \<Rightarrow> Inl e
      | Inr runs \<Rightarrow>
          for_each (\<lambda>i. fill_if_unknown i c) (overlap_fill_line (size_n puzzle) runs) s)"

definition apply_overlap_pass ::
  "NonogramPuzzle \<Rightarrow> int list list \<Rightarrow> py_error + (bool \<times> int list list)" where
  "apply_overlap_pass puzzle grid =
     (let N = size_n puzzle
      in case for_each (overlap_row puzzle) (py_range 0 N) (False, grid) of
           Inl e \<Rightarrow> Inl e
         | Inr s \<Rightarrow> for_each (overlap_col puzzle) (py_range 0 N) s)"

section \<open>The possibility pass (solver.py)\<close>

text \<open>\<^verbatim>\<open>if grid[r][c] != v: grid[r][c] = v; changed = True\<close>, for \<open>v\<close> one of 1 and 0.\<close>

definition set_if_differs ::
  "int \<Rightarrow> int \<Rightarrow> int \<Rightarrow> bool \<times> int list list \<Rightarrow> py_error + (bool \<times> int list list)" where
  "set_if_differs v r c s =
     (case s of (changed, grid) \<Rightarrow>
        (case grid_get grid r c of
           Inl e \<Rightarrow> Inl e
         | Inr x \<Rightarrow>
             if x \<noteq> v
             then (case grid_set grid r c v of Inl e \<Rightarrow> Inl e | Inr grid' \<Rightarrow> Inr (True, grid'))
             else Inr (changed, grid)))"

text \<open>\<^verbatim>\<open>[grid[i][c] for i in range(puzzle.size)]\<close>\<close>

definition column :: "int list list \<Rightarrow> int \<Rightarrow> int \<Rightarrow> py_error + int list" where
  "column grid N c =
     for_each (\<lambda>i col. case grid_get grid i c of Inl e \<Rightarrow> Inl e | Inr v \<Rightarrow> Inr (col @ [v]))
              (py_range 0 N) []"

text \<open>
  In the loop over the rows \<^verbatim>\<open>known\<close> is the row object itself; the deduction reads it to
  the end before the first cell of the row is written.
\<close>

definition possibility_row ::
  "NonogramPuzzle \<Rightarrow> int \<Rightarrow> bool \<times> int list list \<Rightarrow> py_error + (bool \<times> int list list)" where
  "possibility_row puzzle r s =
     (case py_get (snd s) r of
        Inl e \<Rightarrow> Inl e
      | Inr known \<Rightarrow>
          (case py_get (rows puzzle) r of
             Inl e \<Rightarrow> Inl e
           | Inr runs \<Rightarrow>
               (case deduce_from_possibilities (size_n puzzle) runs known of
                  Inl e \<Rightarrow> Inl e
                | Inr (mf, me) \<Rightarrow>
                    (case for_each (\<lambda>c. set_if_differs 1 r c) mf s of
                       Inl e \<Rightarrow> Inl e
                     | Inr s' \<Rightarrow> for_each (\<lambda>c. set_if_differs 0 r c) me s'))))"

definition possibility_col ::
  "NonogramPuzzle \<Rightarrow> int \<Rightarrow> bool \<times> int list list \<Rightarrow> py_error + (bool \<times> int list list)" where
  "possibility_col puzzle c s =
     (case column (snd s) (size_n puzzle) c of
        Inl e \<Rightarrow> Inl e
      | Inr known \<Rightarrow>
          (case py_get (cols puzzle) c of
             Inl e \<Rightarrow> Inl e
           | Inr runs \<Rightarrow>
               (case deduce_from_possibilities (size_n puzzle) runs known of
                  Inl e \<Rightarrow> Inl e
                | Inr (mf, me) \<Rightarrow>
                    (case for_each (\<lambda>i. set_if_differs 1 i c) mf s of
                       Inl e \<Rightarrow> Inl e
                     | Inr s' \<Rightarrow> for_each (\<lambda>i. set_if_differs 0 i c) me s'))))"

definition apply_possibility_pass ::
  "NonogramPuzzle \<Rightarrow> int list list \<Rightarrow> py_error + (bool \<times> int list list)" where
  "apply_possibility_pass puzzle grid =
     (case for_each (possibility_row puzzle) (py_range 0 (size_n puzzle)) (False, grid) of
        Inl e \<Rightarrow> Inl e
      | Inr s \<Rightarrow> for_each (possibility_col puzzle) (py_range 0 (size_n puzzle)) s)"

section \<open>The validator (validator.py)\<close>

text \<open>
  \<^verbatim>\<open>solver.py\<close> imports \<^verbatim>\<open>is_puzzle_solved\<close> from \<^verbatim>\<open>nonogram.validator\<close>; the validator
  module among the sources is \<^verbatim>\<open>nanogram/validator.py\<close>.
\<close>

fun line_groups_loop :: "int list \<Rightarrow> int list \<Rightarrow> int \<Rightarrow> int list" where
  "line_groups_loop [] groups run = (if run \<noteq> 0 then groups @ [run] else groups)"
| "line_groups_loop (v # vs) groups run =
     (if v = 1 then line_groups_loop vs groups (run + 1)
      else if run \<noteq> 0 then line_groups_loop vs (groups @ [run]) 0
      else line_groups_loop vs groups run)"

definition line_groups_of_ones :: "int list \<Rightarrow> int list" where
  "line_groups_of_ones line = line_groups_loop line [] 0"

definition is_line_fully_known :: "int list \<Rightarrow> bool" where
  "is_line_fully_known line = list_all (\<lambda>v. v = 0 \<or> v = 1) line"

definition does_line_satisfy_clues :: "int list \<Rightarrow> int list \<Rightarrow> bool" where
  "does_line_satisfy_clues line runs =
     (if \<not> is_line_fully_known line then False else line_groups_of_ones line = runs)"

definition is_grid_complete :: "int list list \<Rightarrow> bool" where
  "is_grid_complete state = list_all is_line_fully_known state"

text \<open>The two loops of \<^verbatim>\<open>is_puzzle_solved\<close> return \<^verbatim>\<open>False\<close> at the first line that fails.\<close>

fun rows_satisfied :: "int list list \<Rightarrow> (nat \<times> int list) list \<Rightarrow> py_error + bool" where
  "rows_satisfied state [] = Inr True"
| "rows_satisfied state ((r, runs) # rest) =
     (case py_get state (int r) of
        Inl e \<Rightarrow> Inl e
      | Inr row \<Rightarrow>
          if \<not> does_line_satisfy_clues row runs then Inr False else rows_satisfied state rest)"

fun cols_satisfied :: "int list list \<Rightarrow> int \<Rightarrow> (nat \<times> int list) list \<Rightarrow> py_error + bool" where
  "cols_satisfied state N [] = Inr True"
| "cols_satisfied state N ((c, runs) # rest) =
     (case column state N (int c) of
        Inl e \<Rightarrow> Inl e
      | Inr col \<Rightarrow>
          if \<not> does_line_satisfy_clues col runs then Inr False else cols_satisfied state N rest)"

definition is_puzzle_solved :: "NonogramPuzzle \<Rightarrow> int list list \<Rightarrow> py_error + bool" where
  "is_puzzle_solved puzzle state =
     (if \<not> is_grid_complete state then Inr False
      else
        (case rows_satisfied state (enumerate 0 (rows puzzle)) of
           Inl e \<Rightarrow> Inl e
         | Inr rows_ok \<Rightarrow>
             if \<not> rows_ok then Inr False
             else cols_satisfied state (size_n puzzle) (enumerate 0 (cols puzzle))))"

section \<open>The solver (solver.py)\<close>

text \<open>
  The \<^verbatim>\<open>while changed\<close> loop of \<^verbatim>\<open>solve_nonogram\<close>, entered with \<^verbatim>\<open>changed = True\<close>. The
  result \<open>None\<close> stands for a loop that does not end; an exception ends the loop and the
  call. The loop leaves with the grid when the puzzle is solved or when a round changed
  nothing.
\<close>

partial_function (option) solve_loop ::
  "NonogramPuzzle \<Rightarrow> int list list \<Rightarrow> (py_error + int list list) option" where
  "solve_loop puzzle state =
     (case is_puzzle_solved puzzle state of
        Inl e \<Rightarrow> Some (Inl e)
      | Inr solved \<Rightarrow>
          if solved then Some (Inr state)
          else
            (case apply_overlap_pass puzzle state of
               Inl e \<Rightarrow> Some (Inl e)
             | Inr (changed1, state1) \<Rightarrow>
                 (case apply_possibility_pass puzzle state1 of
                    Inl e \<Rightarrow> Some (Inl e)
                  | Inr (changed2, state2) \<Rightarrow>
                      if changed1 \<or> changed2 then solve_loop puzzle state2
                      else Some (Inr state2))))"

declare solve_loop.simps [code]

text \<open>
  \<^verbatim>\<open>solve_nonogram\<close> builds the all-unknown grid, runs the loop, evaluates
  \<^verbatim>\<open>is_puzzle_solved\<close> once more for the message it prints, and returns the grid, whatever
  it holds. The function has no \<^verbatim>\<open>return None\<close>.
\<close>

definition solve_nonogram :: "NonogramPuzzle \<Rightarrow> (py_error + int list list) option" where
  "solve_nonogram puzzle =
     (let state = replicate (nat (size_n puzzle)) (replicate (nat (size_n puzzle)) (- 1))
      in case solve_loop puzzle state of
           None \<Rightarrow> None
         | Some (Inl e) \<Rightarrow> Some (Inl e)
         | Some (Inr state') \<Rightarrow>
             (case is_puzzle_solved puzzle state' of
                Inl e \<Rightarrow> Some (Inl e)
              | Inr solved \<Rightarrow> Some (Inr state')))"

section \<open>Notions used to state the properties\<close>

subsection \<open>The slack arithmetic of the overlap deducer, as the specification words it\<close>

definition slack :: "int \<Rightarrow> int list \<Rightarrow> int" where
  "slack L runs = L - (sum_list runs + int (length runs) - 1)"

definition earliestStart :: "int list \<Rightarrow> nat \<Rightarrow> int" where
  "earliestStart runs i = sum_list (take i runs) + int i"

definition latestStart :: "int \<Rightarrow> int list \<Rightarrow> nat \<Rightarrow> int" where
  "latestStart L runs i = L - (sum_list (drop i runs) + (int (length runs) - 1 - int i))"

definition overlap_ranges :: "int \<Rightarrow> int list \<Rightarrow> int set" where
  "overlap_ranges L runs =
     (\<Union>i \<in> {i. i < length runs \<and> runs ! i - slack L runs > 0}.
        {latestStart L runs i .. earliestStart runs i + runs ! i - 1})"

subsection \<open>Notions for the generator\<close>

text \<open>A line of cells that are all 0 or 1.\<close>

definition bits :: "int list \<Rightarrow> bool" where
  "bits xs = (\<forall>x \<in> set xs. x = 0 \<or> x = 1)"

text \<open>
  The bound \<^verbatim>\<open>max_start\<close> of the loop of \<^verbatim>\<open>place\<close>, and the part of one iteration that
  follows a successful \<^verbatim>\<open>ok_block\<close>, named so that the proofs can take the recursion of
  \<open>place\<close> apart (lemma \<open>place_unfold\<close> below states \<open>place\<close> in these terms).
\<close>

definition max_start :: "int \<Rightarrow> int list \<Rightarrow> nat \<Rightarrow> int" where
  "max_start L runs run_idx =
     L - (sum_list (drop run_idx runs) + (int (length runs) - 1 - int run_idx))"

definition place_block ::
  "int \<Rightarrow> int list \<Rightarrow> int list \<Rightarrow> int list \<Rightarrow> nat \<Rightarrow> int \<Rightarrow> int \<Rightarrow> int \<Rightarrow> py_error + int list list" where
  "place_block L runs known line run_idx pos position run =
     (case write_block line position run of
        Inl e \<Rightarrow> Inl e
      | Inr line1 \<Rightarrow>
          if int run_idx + 1 = int (length runs) then
            (case consistent_fill L known line1 of
               Inl e \<Rightarrow> Inl e
             | Inr c \<Rightarrow> Inr (if c then [line1] else []))
          else
            (case gap_is_filled L known (position + run) of
               Inl e \<Rightarrow> Inl e
             | Inr filled \<Rightarrow>
                 if filled then Inr []
                 else
                   (case clear_gap L line1 (position + run) of
                      Inl e \<Rightarrow> Inl e
                    | Inr line2 \<Rightarrow>
                        (case known_ones_covered known line2
                                (py_range pos (position + run + 1 - 1)) of
                           Inl e \<Rightarrow> Inl e
                         | Inr ok \<Rightarrow>
                             if ok
                             then place L runs known line2 (run_idx + 1)
                                    (position + run + 1) (position + run + 1)
                             else Inr []))))"

text \<open>
  \<open>layout runs q\<close>: the line \<open>q\<close> consists of the runs in order, each a block of 1s of its
  length, with at least one 0 between two blocks and any number of 0s before the first and
  after the last block.
\<close>

fun layout :: "int list \<Rightarrow> int list \<Rightarrow> bool" where
  "layout [] q = (\<forall>x \<in> set q. x = 0)"
| "layout [r] q = (\<exists>a b. q = replicate a 0 @ replicate (nat r) 1 @ replicate b 0)"
| "layout (r # r' # rs) q =
     (\<exists>a q'. q = replicate a 0 @ replicate (nat r) 1 @ 0 # q' \<and> layout (r' # rs) q')"

text \<open>
  A legal pattern of a line, as the specification words it: a line of \<open>L\<close> cells, each 0 or
  1, whose maximal blocks of 1s, read left to right, are the runs (so that two consecutive
  runs are at least one 0 apart), with no 1 on a cell known empty and a 1 on every cell
  known filled. The blocks are read with the validator's \<^verbatim>\<open>_line_groups_of_ones\<close>. The
  possibility set of a line is the set of its legal patterns.
\<close>

definition legal_pattern :: "int \<Rightarrow> int list \<Rightarrow> int list \<Rightarrow> int list \<Rightarrow> bool" where
  "legal_pattern L runs known p =
     (length p = nat L \<and> is_line_fully_known p \<and> line_groups_of_ones p = runs \<and>
      list_all (\<lambda>i. (known ! i = 0 \<longrightarrow> p ! i \<noteq> 1) \<and> (known ! i = 1 \<longrightarrow> p ! i = 1))
        [0..<nat L])"

text \<open>The body of the counting loop of \<^verbatim>\<open>deduce_from_possibilities\<close>, by name.\<close>

definition count_step :: "nat \<times> int \<Rightarrow> int list \<Rightarrow> py_error + int list" where
  "count_step = (\<lambda>(i, v) oc.
                 if v = 1
                 then (case py_get oc (int i) of
                         Inl e \<Rightarrow> Inl e
                       | Inr n \<Rightarrow> py_set oc (int i) (n + 1))
                 else Inr oc)"

subsection \<open>Notions for the passes and the loop\<close>

text \<open>
  A cell refines to itself, and an unknown cell to 0 or 1; a grid refines to a grid of the
  same shape cell by cell. \<open>unknown_count\<close> counts the unknown cells of a grid, and
  \<open>progress\<close> relates the states (flag and grid) before and after a piece of a pass: the
  grid is refined, and the flag is raised only if it was already or an unknown cell was
  decided.
\<close>

definition cell_refines :: "int \<Rightarrow> int \<Rightarrow> bool" where
  "cell_refines x y = (y = x \<or> (x = - 1 \<and> (y = 0 \<or> y = 1)))"

definition grid_refines :: "int list list \<Rightarrow> int list list \<Rightarrow> bool" where
  "grid_refines g g' = list_all2 (list_all2 cell_refines) g g'"

definition unknown_count :: "int list list \<Rightarrow> nat" where
  "unknown_count g = sum_list (map (\<lambda>row. length (filter (\<lambda>v. v = - 1) row)) g)"

definition progress :: "bool \<times> int list list \<Rightarrow> bool \<times> int list list \<Rightarrow> bool" where
  "progress s s' =
     (grid_refines (snd s) (snd s') \<and>
      (fst s' \<longrightarrow> fst s \<or> unknown_count (snd s') < unknown_count (snd s)))"

text \<open>
  The loop of \<^verbatim>\<open>solve_nonogram\<close> cut after \<open>n\<close> iterations: \<open>None\<close> when the loop has not
  left by then. It counts the rounds of \<open>solve_loop\<close>.
\<close>

fun solve_loop_fuel ::
  "nat \<Rightarrow> NonogramPuzzle \<Rightarrow> int list list \<Rightarrow> (py_error + int list list) option" where
  "solve_loop_fuel 0 puzzle state = None"
| "solve_loop_fuel (Suc n) puzzle state =
     (case is_puzzle_solved puzzle state of
        Inl e \<Rightarrow> Some (Inl e)
      | Inr solved \<Rightarrow>
          if solved then Some (Inr state)
          else
            (case apply_overlap_pass puzzle state of
               Inl e \<Rightarrow> Some (Inl e)
             | Inr (changed1, state1) \<Rightarrow>
                 (case apply_possibility_pass puzzle state1 of
                    Inl e \<Rightarrow> Some (Inl e)
                  | Inr (changed2, state2) \<Rightarrow>
                      if changed1 \<or> changed2 then solve_loop_fuel n puzzle state2
                      else Some (Inr state2))))"

text \<open>The positions of the cells that hold 0 or 1.\<close>

definition decided_cells :: "int list list \<Rightarrow> (nat \<times> nat) set" where
  "decided_cells g = {(r, c). r < length g \<and> c < length (g ! r) \<and> (g ! r ! c = 0 \<or> g ! r ! c = 1)}"

section \<open>The overlap deducer computes the ranges of the slack arithmetic\<close>

lemma prefix_sums_nth:
  "i \<le> length rs \<Longrightarrow> prefix_sums acc rs ! i = acc + sum_list (take i rs)"
proof (induction rs arbitrary: acc i)
  case Nil
  then show ?case by simp
next
  case (Cons r rs)
  then show ?case by (cases i) simp_all
qed

lemma sum_list_drop_eq:
  "sum_list (drop i rs) = sum_list rs - sum_list (take i (rs::int list))"
proof -
  have "sum_list (take i rs @ drop i rs) = sum_list (take i rs) + sum_list (drop i rs)"
    by (rule sum_list_append)
  then show ?thesis by simp
qed

lemma overlap_step_set:
  assumes "i < length runs"
  shows "set (overlap_step L runs (prefix_sums 0 runs) (slack L runs) forced i) =
     set forced \<union> (if runs ! i - slack L runs > 0
                    then {latestStart L runs i .. earliestStart runs i + runs ! i - 1} else {})"
proof -
  have p: "prefix_sums 0 runs ! i = sum_list (take i runs)"
    using assms by (simp add: prefix_sums_nth)
  have q: "prefix_sums 0 runs ! length runs = sum_list runs"
    by (simp add: prefix_sums_nth)
  show ?thesis
    unfolding overlap_step_def Let_def p q py_range_def
    by (auto simp: latestStart_def earliestStart_def sum_list_drop_eq)
qed

lemma overlap_foldl_set:
  "n \<le> length runs \<Longrightarrow>
   set (foldl (overlap_step L runs (prefix_sums 0 runs) (slack L runs)) [] [0..<n]) =
     (\<Union>i \<in> {i. i < n \<and> runs ! i - slack L runs > 0}.
        {latestStart L runs i .. earliestStart runs i + runs ! i - 1})"
proof (induction n)
  case 0
  then show ?case by simp
next
  case (Suc n)
  then have n: "n < length runs" by simp
  have "{i. i < Suc n \<and> runs ! i - slack L runs > 0} =
        {i. i < n \<and> runs ! i - slack L runs > 0} \<union> (if runs ! n - slack L runs > 0 then {n} else {})"
    by (auto simp: less_Suc_eq)
  with Suc n show ?case
    by (simp add: overlap_step_set)
qed

lemma overlap_fill_line_eq:
  assumes "runs \<noteq> []"
  shows "overlap_fill_line L runs =
           (if 0 \<le> slack L runs then sorted_list_of_set (overlap_ranges L runs) else [])"
proof -
  have s: "L - (sum_list runs + (int (length runs) - 1)) = slack L runs"
    by (simp add: slack_def)
  show ?thesis
    using assms unfolding overlap_fill_line_def Let_def s
    by (simp add: overlap_foldl_set overlap_ranges_def not_less)
qed

lemma finite_overlap_ranges: "finite (overlap_ranges L runs)"
  by (simp add: overlap_ranges_def)

text \<open>
  Claim C4. For every length \<open>L\<close> and non-empty run list, with the slack
  \<open>S = L - (sum runs + len runs - 1)\<close>: when \<open>S \<ge> 0\<close>, \<^verbatim>\<open>overlap_fill_line\<close> returns the sorted,
  duplicate-free list of exactly the indices in the union, over the runs \<open>i\<close> with
  \<open>runs[i] - S > 0\<close>, of the ranges from \<open>latestStart i\<close> to \<open>earliestStart i + runs[i] - 1\<close>;
  when \<open>S < 0\<close> it returns the empty list.
\<close>

theorem overlap_fill_line_ranges:
  assumes "runs \<noteq> []"
  shows "(0 \<le> slack L runs \<longrightarrow>
            sorted (overlap_fill_line L runs) \<and> distinct (overlap_fill_line L runs) \<and>
            set (overlap_fill_line L runs) = overlap_ranges L runs) \<and>
         (slack L runs < 0 \<longrightarrow> overlap_fill_line L runs = [])"
  using assms by (simp add: overlap_fill_line_eq finite_overlap_ranges)

theorem overlap_fill_line_ranges_witness:
  "[3, 1] \<noteq> ([] :: int list) \<and> 0 \<le> slack 5 [3, 1] \<and>
   sorted (overlap_fill_line 5 [3, 1]) \<and> distinct (overlap_fill_line 5 [3, 1]) \<and>
   set (overlap_fill_line 5 [3, 1]) = overlap_ranges 5 [3, 1] \<and>
   overlap_fill_line 5 [3, 1] = [0, 1, 2, 4] \<and>
   slack 1 [2] < 0 \<and> overlap_fill_line 1 [2] = []"
proof -
  have a: "[3, 1] \<noteq> ([] :: int list)" by simp
  have b: "0 \<le> slack 5 [3, 1]" by (simp add: slack_def)
  have c: "overlap_fill_line 5 [3, 1] = [0, 1, 2, 4]" by code_simp
  have d: "[2] \<noteq> ([] :: int list)" by simp
  have e: "slack 1 [2] < 0" by (simp add: slack_def)
  show ?thesis
    using overlap_fill_line_ranges [OF a, of 5] overlap_fill_line_ranges [OF d, of 1] b c e
    by simp
qed

section \<open>The generator: what every pattern satisfies\<close>

lemma py_set_length: "py_set xs i v = Inr ys \<Longrightarrow> length ys = length xs"
  by (auto simp: py_set_def Let_def split: if_splits)

lemma for_each_invariant:
  assumes "for_each f xs s = Inr s'" and "P s"
    and "\<And>x t t'. x \<in> set xs \<Longrightarrow> P t \<Longrightarrow> f x t = Inr t' \<Longrightarrow> P t'"
  shows "P s'"
  using assms
proof (induction xs arbitrary: s)
  case Nil
  then show ?case by simp
next
  case (Cons x xs)
  from Cons.prems(1) obtain t where t: "f x s = Inr t" and r: "for_each f xs t = Inr s'"
    by (auto split: sum.splits)
  have "P t" using Cons.prems(2,3) t by auto
  then show ?case using Cons.IH [OF r] Cons.prems(3) by auto
qed

lemma py_set_bits: "py_set xs i v = Inr ys \<Longrightarrow> bits xs \<Longrightarrow> v = 0 \<or> v = 1 \<Longrightarrow> bits ys"
  by (auto simp: py_set_def Let_def bits_def split: if_splits dest!: set_update_subset_insert [THEN subsetD])

lemma write_block_length: "write_block line position run = Inr line1 \<Longrightarrow> length line1 = length line"
  unfolding write_block_def
  by (erule for_each_invariant [where P = "\<lambda>l. length l = length line"]) (auto dest: py_set_length)

lemma write_block_bits: "write_block line position run = Inr line1 \<Longrightarrow> bits line \<Longrightarrow> bits line1"
  unfolding write_block_def
  by (erule for_each_invariant [where P = bits]) (auto dest: py_set_bits)

lemma clear_gap_length: "clear_gap L line i = Inr line2 \<Longrightarrow> length line2 = length line"
  by (auto simp: clear_gap_def split: if_splits sum.splits dest: py_set_length)

lemma clear_gap_bits: "clear_gap L line i = Inr line2 \<Longrightarrow> bits line \<Longrightarrow> bits line2"
  by (auto simp: clear_gap_def split: if_splits sum.splits dest: py_set_bits)

lemma place_unfold:
  "place L runs known line run_idx pos position =
     (case py_get runs (int run_idx) of
        Inl e \<Rightarrow> Inl e
      | Inr run \<Rightarrow>
          if position \<le> max_start L runs run_idx then
            (case ok_block L known position run of
               Inl e \<Rightarrow> Inl e
             | Inr fits \<Rightarrow>
                 (case (if fits then place_block L runs known line run_idx pos position run
                        else Inr []) of
                    Inl e \<Rightarrow> Inl e
                  | Inr found \<Rightarrow>
                      (case place L runs known line run_idx pos (position + 1) of
                         Inl e \<Rightarrow> Inl e
                       | Inr rest \<Rightarrow> Inr (found @ rest))))
          else Inr [])"
  unfolding place_block_def max_start_def
  by (subst place.simps) (simp only: Let_def)

lemma place_block_cases:
  assumes "place_block L runs known line run_idx pos position run = Inr found"
  obtains
    (yield) line1 where
      "write_block line position run = Inr line1"
      "Suc run_idx = length runs"
      "consistent_fill L known line1 = Inr True"
      "found = [line1]"
  | (clash) line1 where
      "write_block line position run = Inr line1"
      "Suc run_idx = length runs"
      "consistent_fill L known line1 = Inr False"
      "found = []"
  | (gap) line1 where
      "write_block line position run = Inr line1"
      "Suc run_idx \<noteq> length runs"
      "gap_is_filled L known (position + run) = Inr True"
      "found = []"
  | (pruned) line1 line2 where
      "write_block line position run = Inr line1"
      "Suc run_idx \<noteq> length runs"
      "gap_is_filled L known (position + run) = Inr False"
      "clear_gap L line1 (position + run) = Inr line2"
      "known_ones_covered known line2 (py_range pos (position + run)) = Inr False"
      "found = []"
  | (deeper) line1 line2 where
      "write_block line position run = Inr line1"
      "Suc run_idx \<noteq> length runs"
      "gap_is_filled L known (position + run) = Inr False"
      "clear_gap L line1 (position + run) = Inr line2"
      "known_ones_covered known line2 (py_range pos (position + run)) = Inr True"
      "place L runs known line2 (Suc run_idx) (position + run + 1) (position + run + 1) = Inr found"
proof -
  from assms obtain line1 where w: "write_block line position run = Inr line1"
    by (simp add: place_block_def split: sum.splits)
  show thesis
  proof (cases "Suc run_idx = length runs")
    case True
    then have e: "int run_idx + 1 = int (length runs)" by simp
    from assms obtain c where c: "consistent_fill L known line1 = Inr c"
      and f: "found = (if c then [line1] else [])"
      unfolding place_block_def w e by (auto split: sum.splits)
    show thesis
    proof (cases c)
      case True
      with w \<open>Suc run_idx = length runs\<close> c f show thesis by (intro yield) simp_all
    next
      case False
      with w \<open>Suc run_idx = length runs\<close> c f show thesis by (intro clash) simp_all
    qed
  next
    case False
    then have e: "int run_idx + 1 \<noteq> int (length runs)" by linarith
    from assms obtain filled where g: "gap_is_filled L known (position + run) = Inr filled"
      unfolding place_block_def w using e by (simp split: sum.splits)
    show thesis
    proof (cases filled)
      case True
      with assms w e g have "found = []" by (simp add: place_block_def)
      with w False g True show thesis by (intro gap) simp_all
    next
      case nf: False
      from assms w e g nf obtain line2 where l2: "clear_gap L line1 (position + run) = Inr line2"
        by (simp add: place_block_def split: sum.splits)
      from assms w e g nf l2 obtain ok where
        ok: "known_ones_covered known line2 (py_range pos (position + run)) = Inr ok"
        by (simp add: place_block_def split: sum.splits)
      show thesis
      proof (cases ok)
        case True
        with assms w e g nf l2 ok
        have "place L runs known line2 (Suc run_idx) (position + run + 1) (position + run + 1) = Inr found"
          by (simp add: place_block_def)
        with w False g nf l2 ok True show thesis by (intro deeper) simp_all
      next
        case no: False
        with assms w e g nf l2 ok have "found = []" by (simp add: place_block_def)
        with w False g nf l2 ok no show thesis by (intro pruned) simp_all
      qed
    qed
  qed
qed

lemma place_cases:
  assumes "place L runs known line run_idx pos position = Inr ps"
  obtains
    (stop) run where "py_get runs (int run_idx) = Inr run"
      "\<not> position \<le> max_start L runs run_idx" "ps = []"
  | (skip) run where "py_get runs (int run_idx) = Inr run"
      "position \<le> max_start L runs run_idx"
      "ok_block L known position run = Inr False"
      "place L runs known line run_idx pos (position + 1) = Inr ps"
  | (fits) run found rest where "py_get runs (int run_idx) = Inr run"
      "position \<le> max_start L runs run_idx"
      "ok_block L known position run = Inr True"
      "place_block L runs known line run_idx pos position run = Inr found"
      "place L runs known line run_idx pos (position + 1) = Inr rest"
      "ps = found @ rest"
proof -
  from assms obtain run where r: "py_get runs (int run_idx) = Inr run"
    by (subst (asm) place_unfold) (simp split: sum.splits)
  show thesis
  proof (cases "position \<le> max_start L runs run_idx")
    case False
    with assms r have "ps = []" by (subst (asm) place_unfold) simp
    with r False show thesis by (intro stop) simp_all
  next
    case True
    from assms r True obtain b where b: "ok_block L known position run = Inr b"
      by (subst (asm) place_unfold) (simp split: sum.splits)
    show thesis
    proof (cases b)
      case False
      with assms r True b have "place L runs known line run_idx pos (position + 1) = Inr ps"
        by (subst (asm) place_unfold) (simp split: sum.splits)
      with r True b False show thesis by (intro skip) simp_all
    next
      case bt: True
      from assms r True b bt obtain found where
        f: "place_block L runs known line run_idx pos position run = Inr found"
        by (subst (asm) place_unfold) (simp split: sum.splits)
      from assms r True b bt f obtain rest where
        "place L runs known line run_idx pos (position + 1) = Inr rest" "ps = found @ rest"
        by (subst (asm) place_unfold) (auto split: sum.splits)
      with r True b bt f show thesis by (intro fits) simp_all
    qed
  qed
qed

lemma place_induct_Inr [consumes 1, case_names place]:
  assumes major: "place L runs known line run_idx pos position = Inr ps"
    and step: "\<And>L runs known line run_idx pos position ps.
          place L runs known line run_idx pos position = Inr ps \<Longrightarrow>
          (\<And>rest. position \<le> max_start L runs run_idx \<Longrightarrow>
             place L runs known line run_idx pos (position + 1) = Inr rest \<Longrightarrow>
             P L runs known line run_idx pos (position + 1) rest) \<Longrightarrow>
          (\<And>run line1 line2 found.
             py_get runs (int run_idx) = Inr run \<Longrightarrow>
             position \<le> max_start L runs run_idx \<Longrightarrow>
             ok_block L known position run = Inr True \<Longrightarrow>
             write_block line position run = Inr line1 \<Longrightarrow>
             Suc run_idx \<noteq> length runs \<Longrightarrow>
             gap_is_filled L known (position + run) = Inr False \<Longrightarrow>
             clear_gap L line1 (position + run) = Inr line2 \<Longrightarrow>
             known_ones_covered known line2 (py_range pos (position + run)) = Inr True \<Longrightarrow>
             place L runs known line2 (Suc run_idx) (position + run + 1) (position + run + 1)
               = Inr found \<Longrightarrow>
             P L runs known line2 (Suc run_idx) (position + run + 1) (position + run + 1) found) \<Longrightarrow>
          P L runs known line run_idx pos position ps"
  shows "P L runs known line run_idx pos position ps"
proof -
  have "\<forall>ps. place L runs known line run_idx pos position = Inr ps \<longrightarrow>
          P L runs known line run_idx pos position ps"
  proof (induction L runs known line run_idx pos position rule: place.induct)
    case (1 L runs known line run_idx pos position)
    show ?case
    proof (intro allI impI)
      fix ps
      assume pl: "place L runs known line run_idx pos position = Inr ps"
      show "P L runs known line run_idx pos position ps"
      proof (rule step [OF pl], goal_cases)
        case (1 rest)
        from pl show ?case
        proof (cases rule: place_cases)
          case (stop run)
          with 1 show ?thesis by simp
        next
          case (skip run)
          have "\<forall>ps. place L runs known line run_idx pos (position + 1) = Inr ps \<longrightarrow>
                  P L runs known line run_idx pos (position + 1) ps"
            by (rule "1.IH"(2) [OF skip(1) refl refl _ skip(3), of "[]"])
               (use skip in \<open>simp_all add: max_start_def\<close>)
          with 1 show ?thesis by simp
        next
          case (fits run found rest')
          have "\<forall>ps. place L runs known line run_idx pos (position + 1) = Inr ps \<longrightarrow>
                  P L runs known line run_idx pos (position + 1) ps"
            by (rule "1.IH"(2) [OF fits(1) refl refl _ fits(3), of found])
               (use fits in \<open>unfold max_start_def place_block_def Let_def, simp_all\<close>)
          with 1 show ?thesis by simp
        qed
      next
        case (2 run line1 line2 found)
        have "\<forall>ps. place L runs known line2 (run_idx + 1) (position + run + 1) (position + run + 1)
                     = Inr ps \<longrightarrow>
                P L runs known line2 (run_idx + 1) (position + run + 1) (position + run + 1) ps"
          by (rule "1.IH"(1) [OF 2(1) refl refl _ 2(3) _ 2(4) refl refl _ 2(6) _ 2(7)])
             (use 2 in \<open>simp_all add: max_start_def\<close>)
        with 2 show ?case by simp
      qed
    qed
  qed
  with major show ?thesis by simp
qed

lemma place_yields:
  assumes "place L runs known line run_idx pos position = Inr ps" and "p \<in> set ps"
  shows "length p = length line \<and> (bits line \<longrightarrow> bits p) \<and> consistent_fill L known p = Inr True"
  using assms
proof (induction arbitrary: p rule: place_induct_Inr)
  case (place L runs known line run_idx pos position ps)
  from place.hyps show ?case
  proof (cases rule: place_cases)
    case (stop run)
    with place.prems show ?thesis by simp
  next
    case (skip run)
    with place.IH(1) place.prems show ?thesis by simp
  next
    case (fits run found rest)
    show ?thesis
    proof (cases "p \<in> set rest")
      case True
      with place.IH(1) fits show ?thesis by simp
    next
      case False
      with fits place.prems have pf: "p \<in> set found" by simp
      from fits(4) show ?thesis
      proof (cases rule: place_block_cases)
        case (yield line1)
        with pf write_block_length [OF yield(1)] write_block_bits [OF yield(1)]
        show ?thesis by simp
      next
        case (deeper line1 line2)
        have "length p = length line2 \<and> (bits line2 \<longrightarrow> bits p) \<and>
              consistent_fill L known p = Inr True"
          by (rule place.IH(2) [OF fits(1,2,3) deeper(1,2,3,4,5,6) pf])
        with write_block_length [OF deeper(1)] write_block_bits [OF deeper(1)]
          clear_gap_length [OF deeper(4)] clear_gap_bits [OF deeper(4)]
        show ?thesis by simp
      qed (use pf in simp_all)
    qed
  qed
qed

section \<open>The generator: every pattern lays out the runs\<close>

lemma in_py_range: "i \<in> set (py_range a b) \<longleftrightarrow> a \<le> i \<and> i < b"
  by (auto simp: py_range_def)

lemma py_get_nat: "i < length xs \<Longrightarrow> py_get xs (int i) = Inr (xs ! i)"
  by (simp add: py_get_def py_norm_def)

lemma py_get_InrD:
  "py_get xs i = Inr v \<Longrightarrow> 0 \<le> i \<Longrightarrow> nat i < length xs \<and> v = xs ! nat i"
  by (auto simp: py_get_def py_norm_def Let_def split: if_splits)

lemma py_set_nonneg:
  "py_set xs i v = Inr ys \<Longrightarrow> 0 \<le> i \<Longrightarrow> nat i < length xs \<and> ys = xs[nat i := v]"
  by (auto simp: py_set_def py_norm_def Let_def split: if_splits)

lemma write_cells_eq:
  "for_each (\<lambda>i ln. py_set ln i 1) [a..b] line = Inr line1 \<Longrightarrow> 0 \<le> a \<Longrightarrow> a \<le> b + 1 \<Longrightarrow>
   line1 = take (nat a) line @ replicate (nat (b + 1 - a)) (1::int) @ drop (nat (b + 1)) line"
proof (induction a b arbitrary: line rule: upto.induct)
  case (1 a b)
  show ?case
  proof (cases "a \<le> b")
    case False
    with "1.prems" have "b + 1 = a" by simp
    moreover from False "1.prems" have "line1 = line" by (simp add: upto.simps)
    ultimately show ?thesis by simp
  next
    case True
    then have u: "[a..b] = a # [a + 1..b]" by (simp add: upto.simps)
    from "1.prems"(1) obtain l' where s: "py_set line a 1 = Inr l'"
      and r: "for_each (\<lambda>i ln. py_set ln i 1) [a + 1..b] l' = Inr line1"
      unfolding u by (auto split: sum.splits)
    from py_set_nonneg [OF s] "1.prems" have a: "nat a < length line" and l': "l' = line[nat a := 1]"
      by simp_all
    from "1.IH" [OF True r] "1.prems" True
    have e: "line1 = take (nat (a + 1)) l' @ replicate (nat (b + 1 - (a + 1))) 1 @ drop (nat (b + 1)) l'"
      by simp
    have t: "take (nat (a + 1)) l' = take (nat a) line @ [1]"
      using a "1.prems" by (simp add: l' nat_add_distrib take_Suc_conv_app_nth)
    have d: "drop (nat (b + 1)) l' = drop (nat (b + 1)) line"
      using True "1.prems" by (simp add: l')
    have n: "nat (b + 1 - a) = Suc (nat (b + 1 - (a + 1)))"
      using True by simp
    show ?thesis
      unfolding e t d n by simp
  qed
qed

lemma write_block_eq:
  assumes "write_block line position run = Inr line1" "0 \<le> position" "0 \<le> run"
  shows "line1 = take (nat position) line @ replicate (nat run) 1
                   @ drop (nat position + nat run) line"
proof -
  have "line1 = take (nat position) line @ replicate (nat (position + run - 1 + 1 - position)) 1
                  @ drop (nat (position + run - 1 + 1)) line"
    by (rule write_cells_eq) (use assms in \<open>simp_all add: write_block_def py_range_def\<close>)
  then show ?thesis using assms by (simp add: nat_add_distrib)
qed

lemma ok_block_TrueD:
  "ok_block L known start sz = Inr True \<Longrightarrow> 0 \<le> start \<and> start + sz \<le> L"
  by (auto simp: ok_block_def split: if_splits)

lemma line_groups_zeros:
  "line_groups_loop (replicate a 0 @ q) g 0 = line_groups_loop q g 0"
  by (induction a) simp_all

lemma line_groups_ones:
  "line_groups_loop (replicate n 1 @ q) g run = line_groups_loop q g (run + int n)"
  by (induction n arbitrary: run) (simp_all add: algebra_simps)

lemma line_groups_layout:
  "layout rs q \<Longrightarrow> \<forall>r \<in> set rs. 1 \<le> r \<Longrightarrow> line_groups_loop q g 0 = g @ rs"
proof (induction rs q arbitrary: g rule: layout.induct)
  case (1 q)
  then have "q = replicate (length q) 0 @ []"
    by (simp add: replicate_length_same)
  then have "line_groups_loop q g 0 = line_groups_loop [] g 0"
    by (metis line_groups_zeros)
  then show ?case by simp
next
  case (2 r q)
  then obtain a b where q: "q = replicate a 0 @ replicate (nat r) 1 @ replicate b 0"
    by auto
  from 2 have r: "1 \<le> r" by simp
  have "line_groups_loop q g 0 = line_groups_loop (replicate b 0) g r"
    using r by (simp add: q line_groups_zeros line_groups_ones)
  also have "\<dots> = g @ [r]"
  proof (cases b)
    case 0
    with r show ?thesis by simp
  next
    case (Suc b')
    have "line_groups_loop (replicate b' 0 @ []) (g @ [r]) 0 = line_groups_loop [] (g @ [r]) 0"
      by (rule line_groups_zeros)
    with r Suc show ?thesis by simp
  qed
  finally show ?case .
next
  case (3 r r' rs q)
  then obtain a q' where q: "q = replicate a 0 @ replicate (nat r) 1 @ 0 # q'"
    and l: "layout (r' # rs) q'" by auto
  from 3 have r: "1 \<le> r" by simp
  have "line_groups_loop q g 0 = line_groups_loop (0 # q') g r"
    using r by (simp add: q line_groups_zeros line_groups_ones)
  also have "\<dots> = line_groups_loop q' (g @ [r]) 0"
    using r by simp
  also have "\<dots> = (g @ [r]) @ r' # rs"
    by (rule "3.IH" [OF l]) (use 3 in simp)
  finally show ?case by simp
qed

lemma layout_zero_Cons: "layout rs q \<Longrightarrow> layout rs (0 # q)"
proof (induction rs q rule: layout.induct)
  case (1 q)
  then show ?case by simp
next
  case (2 r q)
  then obtain a b where "q = replicate a 0 @ replicate (nat r) 1 @ replicate b 0" by auto
  then have "0 # q = replicate (Suc a) 0 @ replicate (nat r) 1 @ replicate b 0" by simp
  then show ?case unfolding layout.simps by blast
next
  case (3 r r' rs q)
  then obtain a q' where "q = replicate a 0 @ replicate (nat r) 1 @ 0 # q'"
    and l: "layout (r' # rs) q'" by auto
  then have "0 # q = replicate (Suc a) 0 @ replicate (nat r) 1 @ 0 # q'" by simp
  with l show ?case unfolding layout.simps by blast
qed

lemma layout_nonempty: "layout rs q \<Longrightarrow> rs \<noteq> [] \<Longrightarrow> \<forall>r \<in> set rs. 1 \<le> r \<Longrightarrow> q \<noteq> []"
  by (cases rs; cases "tl rs") auto

lemma layout_length:
  "layout rs q \<Longrightarrow> rs \<noteq> [] \<Longrightarrow> \<forall>r \<in> set rs. 1 \<le> r \<Longrightarrow>
   sum_list rs + int (length rs) - 1 \<le> int (length q)"
proof (induction rs q rule: layout.induct)
  case (1 q)
  then show ?case by simp
next
  case (2 r q)
  then show ?case by auto
next
  case (3 r r' rs q)
  then obtain a q' where q: "q = replicate a 0 @ replicate (nat r) 1 @ 0 # q'"
    and l: "layout (r' # rs) q'" by auto
  from "3.IH" [OF l] "3.prems"
  have "sum_list (r' # rs) + int (length (r' # rs)) - 1 \<le> int (length q')" by simp
  with "3.prems" show ?case by (simp add: q)
qed

lemma zeros_drop:
  "\<forall>i. k \<le> i \<and> i < length line \<longrightarrow> line ! i = (0::int) \<Longrightarrow>
   drop k line = replicate (length line - k) 0"
  by (rule nth_equalityI) simp_all

lemma layout_step:
  assumes t: "take (Suc n) p = take (Suc n) line"
    and l: "layout rs (drop (Suc n) p)"
    and len: "length p = length line"
    and z: "n < length line \<longrightarrow> line ! n = 0"
  shows "take n p = take n line \<and> layout rs (drop n p)"
proof
  have "take n (take (Suc n) p) = take n (take (Suc n) line)" using t by simp
  then show "take n p = take n line" by (simp add: min_def)
  show "layout rs (drop n p)"
  proof (cases "n < length p")
    case True
    have "p ! n = take (Suc n) p ! n" by simp
    also have "\<dots> = line ! n" unfolding t by simp
    finally have "p ! n = 0" using z True len by simp
    then have "drop n p = 0 # drop (Suc n) p"
      using True by (simp add: Cons_nth_drop_Suc [symmetric])
    with l show ?thesis by (simp add: layout_zero_Cons)
  next
    case False
    with l show ?thesis by simp
  qed
qed

lemma write_block_bounds:
  assumes "write_block line position run = Inr line1" "0 \<le> position" "1 \<le> run"
  shows "nat position + nat run \<le> length line"
proof -
  have "length line1 = length line" by (rule write_block_length [OF assms(1)])
  moreover have "line1 = take (nat position) line @ replicate (nat run) 1
                   @ drop (nat position + nat run) line"
    by (rule write_block_eq) (use assms in simp_all)
  ultimately have "min (length line) (nat position) + nat run
        + (length line - (nat position + nat run)) = length line"
    by (metis length_append length_drop length_replicate length_take add.assoc)
  with assms(3) show ?thesis by (simp add: min_def split: if_splits)
qed

lemma clear_gap_zero:
  assumes "clear_gap L line1 idx = Inr line2" "0 \<le> idx"
    and "nat idx < length line1 \<longrightarrow> line1 ! nat idx = 0"
  shows "line2 = line1"
proof (cases "idx < L")
  case False
  with assms show ?thesis by (simp add: clear_gap_def)
next
  case True
  with assms(1) have "py_set line1 idx 0 = Inr line2"
    by (simp add: clear_gap_def split: sum.splits)
  from py_set_nonneg [OF this assms(2)] assms(3) show ?thesis
    by (metis list_update_id)
qed

lemma layout_ConsI:
  "rs \<noteq> [] \<Longrightarrow> layout rs q' \<Longrightarrow> q = replicate a 0 @ replicate (nat r) 1 @ 0 # q' \<Longrightarrow>
   layout (r # rs) q"
  by (cases rs) auto

lemma place_layout:
  assumes "place L runs known line run_idx pos position = Inr ps" and "p \<in> set ps"
    and "\<forall>r \<in> set runs. 1 \<le> r" and "0 \<le> position"
    and "\<forall>i. nat position \<le> i \<and> i < length line \<longrightarrow> line ! i = 0"
  shows "take (nat position) p = take (nat position) line \<and>
         layout (drop run_idx runs) (drop (nat position) p)"
  using assms
proof (induction arbitrary: p rule: place_induct_Inr)
  case (place L runs known line run_idx pos position ps)
  let ?n = "nat position"
  note runs = \<open>\<forall>r \<in> set runs. 1 \<le> r\<close> and pos = \<open>0 \<le> position\<close>
    and zero = \<open>\<forall>i. nat position \<le> i \<and> i < length line \<longrightarrow> line ! i = 0\<close>
  have len: "length p = length line"
    using place_yields [OF place.hyps \<open>p \<in> set ps\<close>] by simp
  have next_case: ?case
    if le: "position \<le> max_start L runs run_idx"
      and pl: "place L runs known line run_idx pos (position + 1) = Inr rest"
      and p: "p \<in> set rest" for rest
  proof -
    have "take (nat (position + 1)) p = take (nat (position + 1)) line \<and>
          layout (drop run_idx runs) (drop (nat (position + 1)) p)"
      by (rule place.IH(1) [OF le pl p runs]) (use pos zero in auto)
    moreover have "nat (position + 1) = Suc ?n" using pos by simp
    ultimately show ?thesis
      using layout_step [of ?n p line "drop run_idx runs"] len zero by simp
  qed
  from place.hyps show ?case
  proof (cases rule: place_cases)
    case (stop run)
    with place.prems show ?thesis by simp
  next
    case (skip run)
    with next_case place.prems show ?thesis by simp
  next
    case (fits run found rest)
    from fits(1) have ri: "run_idx < length runs" and run: "run = runs ! run_idx"
      using py_get_InrD [of runs "int run_idx" run] by simp_all
    with runs have r1: "1 \<le> run" by simp
    have dr: "drop run_idx runs = run # drop (Suc run_idx) runs"
      using ri run by (simp add: Cons_nth_drop_Suc)
    show ?thesis
    proof (cases "p \<in> set rest")
      case True
      with next_case fits show ?thesis by simp
    next
      case False
      with fits place.prems have pf: "p \<in> set found" by simp
      from fits(4) show ?thesis
      proof (cases rule: place_block_cases)
        case (yield line1)
        have l1: "line1 = take ?n line @ replicate (nat run) 1 @ drop (?n + nat run) line"
          by (rule write_block_eq [OF yield(1)]) (use pos r1 in simp_all)
        have b: "?n + nat run \<le> length line"
          by (rule write_block_bounds [OF yield(1) pos r1])
        have z: "drop (?n + nat run) line = replicate (length line - (?n + nat run)) 0"
          by (rule zeros_drop) (use zero in simp)
        from yield pf have p: "p = line1" by simp
        have "take ?n p = take ?n line"
          using b unfolding p l1 by simp
        moreover have "drop ?n p = replicate 0 0 @ replicate (nat run) 1
                          @ replicate (length line - (?n + nat run)) 0"
          using b unfolding p l1 z by simp
        then have "layout [run] (drop ?n p)"
          unfolding layout.simps by blast
        moreover have "drop run_idx runs = [run]"
          using dr yield(2) by simp
        ultimately show ?thesis by simp
      next
        case (deeper line1 line2)
        let ?m = "nat (position + run + 1)"
        have m: "?m = Suc (?n + nat run)" using pos r1 by simp
        have l1: "line1 = take ?n line @ replicate (nat run) 1 @ drop (?n + nat run) line"
          by (rule write_block_eq [OF deeper(1)]) (use pos r1 in simp_all)
        have b: "?n + nat run \<le> length line"
          by (rule write_block_bounds [OF deeper(1) pos r1])
        have len1: "length line1 = length line"
          by (rule write_block_length [OF deeper(1)])
        have after: "line1 ! i = 0" if "?n + nat run \<le> i" "i < length line" for i
        proof -
          have "length (take ?n line @ replicate (nat run) (1::int)) = ?n + nat run"
            using b by simp
          then have "((take ?n line @ replicate (nat run) 1) @ drop (?n + nat run) line) ! i
                = drop (?n + nat run) line ! (i - (?n + nat run))"
            using that(1) by (metis nth_append not_less)
          then have "line1 ! i = drop (?n + nat run) line ! (i - (?n + nat run))"
            unfolding l1 by simp
          also have "\<dots> = line ! i" using that by simp
          finally show ?thesis using zero that by simp
        qed
        have l2: "line2 = line1"
          by (rule clear_gap_zero [OF deeper(4)])
             (use pos r1 after len1 in \<open>simp_all add: nat_add_distrib\<close>)
        have ih: "take ?m p = take ?m line2 \<and>
                  layout (drop (Suc run_idx) runs) (drop ?m p)"
          by (rule place.IH(2) [OF fits(1,2,3) deeper(1,2,3,4,5,6) pf runs])
             (use pos r1 after len1 l2 m in simp_all)
        have ne: "drop (Suc run_idx) runs \<noteq> []"
          using ri deeper(2) by simp
        have "\<forall>r \<in> set (drop (Suc run_idx) runs). 1 \<le> r"
          using runs by (meson in_set_dropD)
        with ih ne have "drop ?m p \<noteq> []" by (blast dest: layout_nonempty)
        then have mp: "?m < length p" by simp
        have t1: "take ?m line1 = take ?n line @ replicate (nat run) 1 @ [0]"
        proof -
          have "drop (?n + nat run) line = line ! (?n + nat run) # drop ?m line"
            using mp len m by (simp add: Cons_nth_drop_Suc)
          moreover have "line ! (?n + nat run) = 0" using zero mp len m by simp
          ultimately show ?thesis using b unfolding l1 m by simp
        qed
        have "p = take ?m p @ drop ?m p" by simp
        also have "take ?m p = take ?n line @ replicate (nat run) 1 @ [0]"
          using ih l2 t1 by simp
        finally have p: "p = take ?n line @ replicate (nat run) 1 @ 0 # drop ?m p" by simp
        have ln: "length (take ?n line) = ?n" using b by simp
        have nl: "?n \<le> length line" using b by simp
        have "take ?n p = take ?n line"
          by (subst p) (simp add: nl min_absorb2)
        moreover have "drop ?n p = replicate 0 0 @ replicate (nat run) 1 @ 0 # drop ?m p"
          by (subst p) (simp add: nl min_absorb2)
        then have "layout (run # drop (Suc run_idx) runs) (drop ?n p)"
          using ih ne by (blast intro: layout_ConsI)
        ultimately show ?thesis using dr by simp
      qed (use pf in simp_all)
    qed
  qed
qed

section \<open>The generator returns on a well-formed line\<close>

lemma py_get_total: "0 \<le> i \<Longrightarrow> i < int (length xs) \<Longrightarrow> \<exists>v. py_get xs i = Inr v"
  by (simp add: py_get_def py_norm_def)

lemma py_set_total: "0 \<le> i \<Longrightarrow> i < int (length xs) \<Longrightarrow> \<exists>ys. py_set xs i v = Inr ys"
  by (simp add: py_set_def py_norm_def)

lemma ok_block_cells_total:
  "\<forall>i \<in> set is. 0 \<le> i \<and> i < int (length known) \<Longrightarrow> \<exists>b. ok_block_cells known is = Inr b"
proof (induction "is")
  case Nil
  show ?case by (rule exI [of _ True]) simp
next
  case (Cons i "is")
  then obtain k where k: "py_get known i = Inr k" using py_get_total [of i known] by auto
  from Cons obtain b where "ok_block_cells known is = Inr b" by auto
  with k show ?case by (cases "k = 0") auto
qed

lemma ok_block_total:
  "length known = nat L \<Longrightarrow> \<exists>b. ok_block L known start sz = Inr b"
  unfolding ok_block_def
  by (auto intro!: ok_block_cells_total simp: py_range_def)

lemma write_cells_total:
  "\<forall>i \<in> set is. 0 \<le> i \<and> i < int (length line) \<Longrightarrow>
   \<exists>line1. for_each (\<lambda>i ln. py_set ln i (1::int)) is line = Inr line1"
proof (induction "is" arbitrary: line)
  case Nil
  then show ?case by simp
next
  case (Cons i "is")
  then obtain l' where s: "py_set line i 1 = Inr l'" using py_set_total [of i line 1] by auto
  then have "length l' = length line" by (rule py_set_length)
  with Cons.prems have "\<exists>line1. for_each (\<lambda>i ln. py_set ln i 1) is l' = Inr line1"
    by (intro Cons.IH) simp
  with s show ?case by simp
qed

lemma write_block_total:
  "0 \<le> position \<Longrightarrow> position + run \<le> int (length line) \<Longrightarrow>
   \<exists>line1. write_block line position run = Inr line1"
  unfolding write_block_def
  by (rule write_cells_total) (auto simp: py_range_def)

lemma consistent_cells_total:
  "\<forall>i \<in> set is. 0 \<le> i \<and> i < int (length known) \<and> i < int (length line) \<Longrightarrow>
   \<exists>c. consistent_cells known line is = Inr c"
proof (induction "is")
  case Nil
  show ?case by (rule exI [of _ True]) simp
next
  case (Cons i "is")
  then obtain k v where k: "py_get known i = Inr k" "py_get line i = Inr v"
    using py_get_total [of i known] py_get_total [of i line] by auto
  from Cons obtain c where "consistent_cells known line is = Inr c" by auto
  with k show ?case by (cases "k = - 1"; cases "k = v") auto
qed

lemma consistent_fill_total:
  "length known = nat L \<Longrightarrow> length line = nat L \<Longrightarrow> \<exists>c. consistent_fill L known line = Inr c"
  unfolding consistent_fill_def
  by (rule consistent_cells_total) (auto simp: py_range_def)

lemma gap_is_filled_total:
  "0 \<le> idx \<Longrightarrow> length known = nat L \<Longrightarrow> \<exists>b. gap_is_filled L known idx = Inr b"
  using py_get_total [of idx known]
  by (auto simp: gap_is_filled_def)

lemma clear_gap_total:
  "0 \<le> idx \<Longrightarrow> length line = nat L \<Longrightarrow> \<exists>line2. clear_gap L line idx = Inr line2"
  using py_get_total [of idx line] py_set_total [of idx line 0]
  by (auto simp: clear_gap_def)

lemma known_ones_covered_total:
  "\<forall>i \<in> set is. 0 \<le> i \<and> i < int (length known) \<and> i < int (length line) \<Longrightarrow>
   \<exists>b. known_ones_covered known line is = Inr b"
proof (induction "is")
  case Nil
  show ?case by (rule exI [of _ True]) simp
next
  case (Cons i "is")
  then obtain k v where k: "py_get known i = Inr k" "py_get line i = Inr v"
    using py_get_total [of i known] py_get_total [of i line] by auto
  from Cons obtain b where "known_ones_covered known line is = Inr b" by auto
  with k show ?case by (cases "k = 1"; cases "v = 1") auto
qed

lemma place_total:
  "run_idx < length runs \<Longrightarrow> 0 \<le> pos \<Longrightarrow> pos \<le> position \<Longrightarrow>
   length known = nat L \<Longrightarrow> length line = nat L \<Longrightarrow> \<forall>r \<in> set runs. 1 \<le> r \<Longrightarrow>
   \<exists>ps. place L runs known line run_idx pos position = Inr ps"
proof (induction L runs known line run_idx pos position rule: place.induct)
  case (1 L runs known line run_idx pos position)
  note ri = \<open>run_idx < length runs\<close> and lk = \<open>length known = nat L\<close>
    and ll = \<open>length line = nat L\<close> and pos = \<open>0 \<le> pos\<close> \<open>pos \<le> position\<close>
  note runs = \<open>\<forall>r \<in> set runs. 1 \<le> r\<close>
  define run where "run = runs ! run_idx"
  have r1: "1 \<le> run" using runs ri by (simp add: run_def)
  have g: "py_get runs (int run_idx) = Inr run"
    using ri by (simp add: py_get_nat run_def)
  show ?case
  proof (cases "position \<le> max_start L runs run_idx")
    case False
    then show ?thesis by (subst place_unfold) (simp add: g)
  next
    case le: True
    obtain b where b: "ok_block L known position run = Inr b"
      using ok_block_total [OF lk] by blast
    have "\<exists>found. (if b then place_block L runs known line run_idx pos position run else Inr [])
            = Inr found"
    proof (cases b)
      case False
      then show ?thesis by simp
    next
      case True
      with b have "ok_block L known position run = Inr True" by simp
      from ok_block_TrueD [OF this] have bnd: "0 \<le> position" "position + run \<le> L"
        by simp_all
      have il: "int (length line) = L" using bnd r1 ll by simp
      obtain line1 where w: "write_block line position run = Inr line1"
        using write_block_total [of position run line] bnd il by auto
      have l1: "length line1 = nat L" using write_block_length [OF w] ll by simp
      have "\<exists>found. place_block L runs known line run_idx pos position run = Inr found"
      proof (cases "Suc run_idx = length runs")
        case lst: True
        obtain c where "consistent_fill L known line1 = Inr c"
          using consistent_fill_total [OF lk l1] by blast
        with w lst show ?thesis
          by (simp add: place_block_def eq_commute [of "Suc run_idx"] del: of_nat_Suc)
      next
        case nl: False
        then have e: "int run_idx + 1 \<noteq> int (length runs)" by linarith
        have ir: "0 \<le> position + run" using bnd r1 by simp
        obtain filled where f: "gap_is_filled L known (position + run) = Inr filled"
          using gap_is_filled_total [OF ir lk] by blast
        show ?thesis
        proof (cases filled)
          case True
          with w e f show ?thesis by (simp add: place_block_def)
        next
          case nf: False
          obtain line2 where c: "clear_gap L line1 (position + run) = Inr line2"
            using clear_gap_total [OF ir l1] by blast
          have l2: "length line2 = nat L" using clear_gap_length [OF c] l1 by simp
          obtain ok where k: "known_ones_covered known line2 (py_range pos (position + run)) = Inr ok"
            using known_ones_covered_total [of "py_range pos (position + run)" known line2]
              pos bnd lk l2 by (auto simp: py_range_def)
          show ?thesis
          proof (cases ok)
            case False
            with w e f nf c k show ?thesis by (simp add: place_block_def)
          next
            case True
            have "\<exists>ps. place L runs known line2 (run_idx + 1) (position + run + 1) (position + run + 1)
                     = Inr ps"
              apply (rule "1.IH"(1) [OF g refl refl _ b _ w refl refl e f _ c])
              using le ri nl ir lk l2 k True \<open>b\<close> nf runs
              by (simp_all add: max_start_def)
            with w e f nf c k True show ?thesis by (simp add: place_block_def)
          qed
        qed
      qed
      with True show ?thesis by simp
    qed
    then obtain found where
      f: "(if b then place_block L runs known line run_idx pos position run else Inr []) = Inr found"
      by blast
    have "\<exists>rest. place L runs known line run_idx pos (position + 1) = Inr rest"
      apply (rule "1.IH"(2) [OF g refl refl _ b, of found])
      using le f ri pos lk ll runs
      by (unfold max_start_def place_block_def Let_def, simp_all)
    then obtain rest where "place L runs known line run_idx pos (position + 1) = Inr rest"
      by blast
    with g le b f show ?thesis
      by (subst place_unfold) simp
  qed
qed

section \<open>The patterns of the generator\<close>

lemma consistent_cells_TrueD:
  "consistent_cells known line is = Inr True \<Longrightarrow> i \<in> set is \<Longrightarrow>
   \<exists>k. py_get known i = Inr k \<and> (k = - 1 \<or> py_get line i = Inr k)"
proof (induction "is")
  case Nil
  then show ?case by simp
next
  case (Cons j "is")
  then show ?case
    by (auto split: sum.splits if_splits)
qed

lemma consistent_fill_TrueD:
  assumes "consistent_fill L known p = Inr True" "i < nat L"
  shows "i < length known \<and> (known ! i = - 1 \<or> (i < length p \<and> p ! i = known ! i))"
proof -
  have "int i \<in> set (py_range 0 L)" using assms(2) by (simp add: py_range_def)
  from consistent_cells_TrueD [OF assms(1) [unfolded consistent_fill_def] this]
  obtain k where k: "py_get known (int i) = Inr k" "k = - 1 \<or> py_get p (int i) = Inr k"
    by blast
  from py_get_InrD [OF k(1)] have "i < length known" "k = known ! i" by simp_all
  moreover have "i < length p \<and> p ! i = k" if "py_get p (int i) = Inr k"
    using py_get_InrD [OF that] by simp
  ultimately show ?thesis using k(2) by auto
qed

lemma bits_replicate: "bits (replicate n 0)"
  by (simp add: bits_def)

lemma enumerate_yields:
  assumes "enumerate_line_patterns L runs known = Inr ps" "p \<in> set ps"
  shows "length p = nat L" "bits p"
    "i < nat L \<Longrightarrow> i < length known \<Longrightarrow> known ! i = - 1 \<or> p ! i = known ! i"
proof -
  have "length p = nat L \<and> bits p \<and>
        (i < nat L \<longrightarrow> i < length known \<longrightarrow> known ! i = - 1 \<or> p ! i = known ! i)"
  proof (cases "runs = []")
    case True
    with assms have p: "p = replicate (nat L) 0" and k: "list_all (\<lambda>k. k = 0 \<or> k = - 1) known"
      by (auto simp: enumerate_line_patterns_def split: if_splits)
    from k have "i < length known \<longrightarrow> known ! i = 0 \<or> known ! i = - 1"
      by (simp add: list_all_length)
    with p show ?thesis by (auto simp: bits_replicate)
  next
    case False
    with assms(1) have pl: "place L runs known (replicate (nat L) 0) 0 0 0 = Inr ps"
      by (auto simp: enumerate_line_patterns_def split: if_splits sum.splits)
    from place_yields [OF pl assms(2)]
    have "length p = nat L" "bits p" "consistent_fill L known p = Inr True"
      by (simp_all add: bits_replicate)
    with consistent_fill_TrueD [of L known p i] show ?thesis by auto
  qed
  then show "length p = nat L" "bits p"
    "i < nat L \<Longrightarrow> i < length known \<Longrightarrow> known ! i = - 1 \<or> p ! i = known ! i"
    by simp_all
qed

lemma enumerate_layout:
  assumes "enumerate_line_patterns L runs known = Inr ps" "p \<in> set ps"
    and "\<forall>r \<in> set runs. 1 \<le> r"
  shows "layout runs p"
proof (cases "runs = []")
  case True
  with assms have "p = replicate (nat L) 0"
    by (auto simp: enumerate_line_patterns_def split: if_splits)
  with True show ?thesis by simp
next
  case False
  with assms(1) have pl: "place L runs known (replicate (nat L) 0) 0 0 0 = Inr ps"
    by (auto simp: enumerate_line_patterns_def split: if_splits sum.splits)
  from place_layout [OF pl assms(2,3)] show ?thesis by simp
qed

lemma enumerate_total:
  assumes "0 \<le> L" "length known = nat L" "\<forall>r \<in> set runs. 1 \<le> r"
  shows "\<exists>ps. enumerate_line_patterns L runs known = Inr ps"
proof (cases "runs = []")
  case True
  then show ?thesis by (simp add: enumerate_line_patterns_def)
next
  case False
  then have "\<exists>ps. place L runs known (replicate (nat L) 0) 0 0 0 = Inr ps"
    using assms by (intro place_total) simp_all
  with False assms(1) show ?thesis by (simp add: enumerate_line_patterns_def)
qed

lemma is_line_fully_known_bits: "is_line_fully_known p = bits p"
  by (simp add: is_line_fully_known_def bits_def list_all_iff)

text \<open>
  Claim C6. For a line of length \<open>L\<close>, a run list (run lengths at least 1, as in the data
  model) and the line's knowledge vector (\<open>L\<close> entries, each \<open>-1\<close>, \<open>0\<close> or \<open>1\<close>), the
  generator returns, and every pattern it produces has \<open>L\<close> cells each 0 or 1, has the run
  list as its maximal blocks of 1s read left to right (the validator's
  \<^verbatim>\<open>_line_groups_of_ones\<close>), sets no cell known empty and sets every cell known filled;
  with an empty run list the all-zero pattern is produced if and only if no cell is known
  filled.
\<close>

theorem line_patterns_sound:
  assumes "0 \<le> L" and "length known = nat L" and "set known \<subseteq> {- 1, 0, 1}"
    and "\<forall>r \<in> set runs. 1 \<le> r"
  shows "\<exists>ps. enumerate_line_patterns L runs known = Inr ps \<and>
           (\<forall>p \<in> set ps.
              length p = nat L \<and> is_line_fully_known p \<and> line_groups_of_ones p = runs \<and>
              (\<forall>i < nat L. (known ! i = 0 \<longrightarrow> p ! i \<noteq> 1) \<and> (known ! i = 1 \<longrightarrow> p ! i = 1))) \<and>
           (runs = [] \<longrightarrow>
              (replicate (nat L) 0 \<in> set ps \<longleftrightarrow> (\<forall>i < nat L. known ! i \<noteq> 1)))"
proof -
  from enumerate_total [OF assms(1,2,4)]
  obtain ps where ps: "enumerate_line_patterns L runs known = Inr ps" by blast
  have "length p = nat L \<and> is_line_fully_known p \<and> line_groups_of_ones p = runs \<and>
        (\<forall>i < nat L. (known ! i = 0 \<longrightarrow> p ! i \<noteq> 1) \<and> (known ! i = 1 \<longrightarrow> p ! i = 1))"
    if p: "p \<in> set ps" for p
  proof -
    note y = enumerate_yields [OF ps p]
    have "line_groups_of_ones p = [] @ runs"
      unfolding line_groups_of_ones_def
      by (rule line_groups_layout [OF enumerate_layout [OF ps p assms(4)] assms(4)])
    moreover have "(known ! i = 0 \<longrightarrow> p ! i \<noteq> 1) \<and> (known ! i = 1 \<longrightarrow> p ! i = 1)"
      if "i < nat L" for i
      using y(3) [of i] that assms(2) by auto
    ultimately show ?thesis using y(1,2) by (simp add: is_line_fully_known_bits)
  qed
  moreover have "replicate (nat L) 0 \<in> set ps \<longleftrightarrow> (\<forall>i < nat L. known ! i \<noteq> 1)" if "runs = []"
  proof -
    have "list_all (\<lambda>k. k = 0 \<or> k = - 1) known \<longleftrightarrow> (\<forall>i < nat L. known ! i \<noteq> 1)"
    proof -
      have "known ! i = - 1 \<or> known ! i = 0 \<or> known ! i = 1" if "i < nat L" for i
      proof -
        have "known ! i \<in> set known" using that assms(2) by simp
        with assms(3) show ?thesis by auto
      qed
      then show ?thesis using assms(2) by (auto simp: list_all_length)
    qed
    with ps that show ?thesis
      by (auto simp: enumerate_line_patterns_def split: if_splits)
  qed
  ultimately show ?thesis using ps by blast
qed

theorem line_patterns_sound_witness:
  "(0::int) \<le> 5 \<and> length [- 1, - 1, 1, - 1, - 1 :: int] = nat 5 \<and>
   set [- 1, - 1, 1, - 1, - 1 :: int] \<subseteq> {- 1, 0, 1} \<and> (1::int) \<le> 1 \<and>
   enumerate_line_patterns 5 [1, 1] [- 1, - 1, 1, - 1, - 1]
     = Inr [[1, 0, 1, 0, 0], [0, 0, 1, 0, 1]] \<and>
   line_groups_of_ones [1, 0, 1, 0, 0] = [1, 1] \<and>
   line_groups_of_ones [0, 0, 1, 0, 1] = [1, 1] \<and>
   enumerate_line_patterns 2 [] [1, - 1] = Inr []"
proof -
  have h1: "(0::int) \<le> 5" by simp
  have h2: "length [- 1, - 1, 1, - 1, - 1 :: int] = nat 5" by simp
  have h3: "set [- 1, - 1, 1, - 1, - 1 :: int] \<subseteq> {- 1, 0, 1}" by simp
  have h4: "\<forall>r \<in> set [1, 1 :: int]. 1 \<le> r" by simp
  have e: "enumerate_line_patterns 5 [1, 1] [- 1, - 1, 1, - 1, - 1]
             = Inr [[1, 0, 1, 0, 0], [0, 0, 1, 0, 1]]"
    by code_simp
  have g: "line_groups_of_ones [1, 0, 1, 0, 0] = [1, 1] \<and>
           line_groups_of_ones [0, 0, 1, 0, 1] = [1, 1]"
    using line_patterns_sound [OF h1 h2 h3 h4] unfolding e by simp
  have f: "enumerate_line_patterns 2 [] [1, - 1] = Inr []"
    by code_simp
  show ?thesis using h1 h2 h3 h4 e g f by simp
qed

section \<open>The generator produces every legal pattern\<close>

text \<open>
  The search of \<^verbatim>\<open>place\<close> leaves out no legal pattern: a pattern that agrees with the
  buffer before the cursor, is 0 from the cursor to the start position under trial, and
  lays out the remaining runs from there, is among the patterns returned. Its first block
  starts at the position under trial or later; in the first case the block passes
  \<^verbatim>\<open>ok_block\<close>, the gap after it is not known filled and no known 1 is left uncovered, so
  that the search goes on with the next run, and in the second case the loop tries the next
  position.
\<close>

lemma py_get_nonneg: "0 \<le> i \<Longrightarrow> nat i < length xs \<Longrightarrow> py_get xs i = Inr (xs ! nat i)"
  by (simp add: py_get_def py_norm_def)

lemma ok_block_cells_True:
  "\<forall>i \<in> set is. 0 \<le> i \<and> nat i < length known \<and> known ! nat i \<noteq> 0 \<Longrightarrow>
   ok_block_cells known is = Inr True"
  by (induction "is") (simp_all add: py_get_nonneg)

lemma consistent_cells_True:
  "\<forall>i \<in> set is. 0 \<le> i \<and> nat i < length known \<and> nat i < length line \<and>
      (known ! nat i = - 1 \<or> line ! nat i = known ! nat i) \<Longrightarrow>
   consistent_cells known line is = Inr True"
  by (induction "is") (auto simp: py_get_nonneg)

lemma known_ones_covered_True:
  "\<forall>i \<in> set is. 0 \<le> i \<and> nat i < length known \<and> nat i < length line \<and>
      (known ! nat i = 1 \<longrightarrow> line ! nat i = 1) \<Longrightarrow>
   known_ones_covered known line is = Inr True"
  by (induction "is") (auto simp: py_get_nonneg)

lemma layout_ConsE:
  assumes "layout (r # rs) q"
  obtains (zero) q' where "q = 0 # q'" "layout (r # rs) q'"
  | (block_last) b where "rs = []" "q = replicate (nat r) 1 @ replicate b 0"
  | (block_more) q' where "rs \<noteq> []" "q = replicate (nat r) 1 @ 0 # q'" "layout rs q'"
proof (cases rs)
  case Nil
  with assms obtain a b where q: "q = replicate a 0 @ replicate (nat r) 1 @ replicate b 0"
    by auto
  show ?thesis
  proof (cases a)
    case 0
    with q Nil show ?thesis by (intro block_last) simp_all
  next
    case (Suc a')
    have "layout [r] (replicate a' 0 @ replicate (nat r) 1 @ replicate b 0)"
      unfolding layout.simps by blast
    with q Suc Nil show ?thesis by (intro zero) simp_all
  qed
next
  case (Cons r' rs')
  with assms obtain a q' where q: "q = replicate a 0 @ replicate (nat r) 1 @ 0 # q'"
    and l: "layout (r' # rs') q'" by auto
  show ?thesis
  proof (cases a)
    case 0
    with q l Cons show ?thesis by (intro block_more) simp_all
  next
    case (Suc a')
    have "layout (r # r' # rs') (replicate a' 0 @ replicate (nat r) 1 @ 0 # q')"
      unfolding layout.simps using l by blast
    with q Suc Cons show ?thesis by (intro zero) simp_all
  qed
qed

lemma layout_single: "layout [r] (replicate (nat r) 1 @ replicate b 0)"
proof -
  have "replicate (nat r) 1 @ replicate b 0
          = replicate 0 0 @ replicate (nat r) (1::int) @ replicate b 0" by simp
  then show ?thesis unfolding layout.simps by blast
qed

lemma bits_has_layout:
  "bits q \<Longrightarrow> \<exists>rs. (\<forall>r \<in> set rs. 1 \<le> r) \<and> layout rs q"
proof (induction q)
  case Nil
  have "layout [] []" by simp
  then show ?case by (intro exI [of _ "[]"]) simp
next
  case (Cons v q)
  from Cons.prems have bq: "bits q" and v: "v = 0 \<or> v = 1" by (simp_all add: bits_def)
  from Cons.IH [OF bq] obtain rs where rs: "\<forall>r \<in> set rs. 1 \<le> r" and l: "layout rs q"
    by blast
  show ?case
  proof (cases "v = 0")
    case True
    with l rs show ?thesis by (blast intro: layout_zero_Cons)
  next
    case False
    with v have v1: "v = 1" by simp
    show ?thesis
    proof (cases rs)
      case Nil
      with l have "q = replicate (length q) 0" by (simp add: replicate_length_same)
      then have "v # q = replicate (nat 1) 1 @ replicate (length q) 0" using v1 by simp
      then have "layout [1] (v # q)" by (metis layout_single)
      then show ?thesis by (intro exI [of _ "[1]"]) simp
    next
      case (Cons r rs')
      from l [unfolded Cons] show ?thesis
      proof (cases rule: layout_ConsE)
        case (zero q')
        have "layout (1 # r # rs') (v # q)"
          by (rule layout_ConsI [where a = 0 and q' = q']) (use zero v1 in simp_all)
        moreover have "\<forall>x \<in> set (1 # r # rs'). 1 \<le> x" using rs Cons by simp
        ultimately show ?thesis by blast
      next
        case (block_last b)
        from rs Cons have r1: "1 \<le> r" by simp
        then have "v # q = replicate (nat (r + 1)) 1 @ replicate b 0"
          using block_last v1 by (simp add: nat_add_distrib)
        then have "layout [r + 1] (v # q)" by (metis layout_single)
        moreover have "\<forall>x \<in> set [r + 1]. 1 \<le> x" using r1 by simp
        ultimately show ?thesis by blast
      next
        case (block_more q')
        from rs Cons have r1: "1 \<le> r" by simp
        have "layout ((r + 1) # rs') (v # q)"
          by (rule layout_ConsI [where a = 0 and q' = q'])
             (use block_more v1 r1 in \<open>simp_all add: nat_add_distrib\<close>)
        moreover have "\<forall>x \<in> set ((r + 1) # rs'). 1 \<le> x" using rs Cons r1 by simp
        ultimately show ?thesis by blast
      qed
    qed
  qed
qed

lemma layout_bits: "layout rs q \<Longrightarrow> bits q"
proof (induction rs q rule: layout.induct)
  case (1 q)
  then show ?case by (simp add: bits_def)
next
  case (2 r q)
  then show ?case by (auto simp: bits_def)
next
  case (3 r r' rs q)
  then obtain a q' where q: "q = replicate a 0 @ replicate (nat r) 1 @ 0 # q'"
    and l: "layout (r' # rs) q'" by auto
  have "bits q'" by (rule "3.IH" [OF l])
  then show ?case unfolding q bits_def by auto
qed

lemma layout_iff_groups:
  assumes "\<forall>r \<in> set runs. 1 \<le> r"
  shows "layout runs p \<longleftrightarrow> bits p \<and> line_groups_of_ones p = runs"
proof
  assume l: "layout runs p"
  have "line_groups_loop p [] 0 = [] @ runs" by (rule line_groups_layout [OF l assms])
  with l show "bits p \<and> line_groups_of_ones p = runs"
    by (simp add: layout_bits line_groups_of_ones_def)
next
  assume a: "bits p \<and> line_groups_of_ones p = runs"
  then obtain rs where rs: "\<forall>r \<in> set rs. 1 \<le> r" and l: "layout rs p"
    using bits_has_layout by blast
  have "line_groups_loop p [] 0 = [] @ rs" by (rule line_groups_layout [OF l rs])
  with a have "rs = runs" by (simp add: line_groups_of_ones_def)
  with l show "layout runs p" by simp
qed

lemma layout_Cons_cases:
  assumes "layout (r # rs) q"
  obtains (zero) q' where "q = 0 # q'" "layout (r # rs) q'"
  | (block) tail where "q = replicate (nat r) 1 @ tail"
      "rs = [] \<longrightarrow> (\<forall>x \<in> set tail. x = 0)"
      "rs \<noteq> [] \<longrightarrow> (\<exists>q'. tail = 0 # q' \<and> layout rs q')"
  using assms
proof (cases rule: layout_ConsE)
  case (zero q')
  then show ?thesis by (rule that(1))
next
  case (block_last b)
  then show ?thesis by (intro that(2) [of "replicate b 0"]) simp_all
next
  case (block_more q')
  then show ?thesis by (intro that(2) [of "0 # q'"]) simp_all
qed

lemma write_block_nth:
  assumes w: "write_block line position run = Inr line1" and p: "0 \<le> position" and r: "1 \<le> run"
    and i: "i < length line"
  shows "line1 ! i = (if nat position \<le> i \<and> i < nat position + nat run then 1 else line ! i)"
proof -
  let ?n = "nat position" and ?r = "nat run"
  have e: "line1 = (take ?n line @ replicate ?r 1) @ drop (?n + ?r) line"
    using write_block_eq [OF w p] r by simp
  have b: "?n + ?r \<le> length line" by (rule write_block_bounds [OF w p r])
  have l: "length (take ?n line @ replicate ?r (1::int)) = ?n + ?r" using b by simp
  show ?thesis
  proof (cases "i < ?n + ?r")
    case False
    then have "line1 ! i = drop (?n + ?r) line ! (i - (?n + ?r))"
      unfolding e using l by (metis nth_append)
    with False i b show ?thesis by simp
  next
    case True
    then have "line1 ! i = (take ?n line @ replicate ?r 1) ! i"
      unfolding e using l by (metis nth_append)
    with True b show ?thesis by (auto simp: nth_append)
  qed
qed

lemma place_complete:
  assumes "place L runs known line run_idx pos position = Inr ps"
    and "\<forall>r \<in> set runs. 1 \<le> r" and "run_idx < length runs"
    and "length known = nat L" and "length line = nat L" and "length p = nat L"
    and "0 \<le> pos" and "pos \<le> position"
    and "\<forall>i. nat pos \<le> i \<and> i < nat L \<longrightarrow> line ! i = 0"
    and "\<forall>i < nat L. known ! i = - 1 \<or> p ! i = known ! i"
    and "\<forall>i < nat pos. i < nat L \<longrightarrow> p ! i = line ! i"
    and "\<forall>i. nat pos \<le> i \<and> i < nat position \<and> i < nat L \<longrightarrow> p ! i = 0"
    and "layout (drop run_idx runs) (drop (nat position) p)"
  shows "p \<in> set ps"
  using assms
proof (induction rule: place_induct_Inr)
  case (place L runs known line run_idx pos position ps)
  let ?n = "nat position"
  note runs = \<open>\<forall>r \<in> set runs. 1 \<le> r\<close> and ri = \<open>run_idx < length runs\<close>
    and lk = \<open>length known = nat L\<close> and ll = \<open>length line = nat L\<close>
    and lp = \<open>length p = nat L\<close> and pos0 = \<open>0 \<le> pos\<close> and pp = \<open>pos \<le> position\<close>
    and zl = \<open>\<forall>i. nat pos \<le> i \<and> i < nat L \<longrightarrow> line ! i = 0\<close>
    and cons = \<open>\<forall>i < nat L. known ! i = - 1 \<or> p ! i = known ! i\<close>
    and ag = \<open>\<forall>i < nat pos. i < nat L \<longrightarrow> p ! i = line ! i\<close>
    and zp = \<open>\<forall>i. nat pos \<le> i \<and> i < nat position \<and> i < nat L \<longrightarrow> p ! i = 0\<close>
    and lay = \<open>layout (drop run_idx runs) (drop (nat position) p)\<close>
  define run where "run = runs ! run_idx"
  define rs' where "rs' = drop (Suc run_idx) runs"
  have dr: "drop run_idx runs = run # rs'"
    using ri by (simp add: run_def rs'_def Cons_nth_drop_Suc)
  have g: "py_get runs (int run_idx) = Inr run"
    using ri by (simp add: py_get_nat run_def)
  have r1: "1 \<le> run" using runs ri by (simp add: run_def)
  have rs1: "\<forall>r \<in> set (run # rs'). 1 \<le> r"
    using runs unfolding dr [symmetric] by (meson in_set_dropD)
  have p0: "0 \<le> position" using pos0 pp by simp
  have ne: "drop ?n p \<noteq> []"
    by (rule layout_nonempty [OF lay [unfolded dr] _ rs1]) simp
  then have nL: "?n < nat L" using lp by (metis drop_all not_le)
  have le: "position \<le> max_start L runs run_idx"
  proof -
    have "sum_list (run # rs') + int (length (run # rs')) - 1 \<le> int (length (drop ?n p))"
      by (rule layout_length [OF lay [unfolded dr] _ rs1]) simp
    moreover have "int (length (drop ?n p)) = L - position"
    proof -
      have "position < L" using nL p0 by linarith
      then show ?thesis using p0 by (simp add: lp of_nat_diff)
    qed
    moreover have "int (length (run # rs')) = int (length runs) - int run_idx"
      unfolding dr [symmetric] using ri by simp
    ultimately show ?thesis unfolding max_start_def dr by simp
  qed
  have nth_drop': "p ! (?n + k) = drop ?n p ! k" if "?n + k < nat L" for k
    using that lp by simp
  from lay [unfolded dr] show ?case
  proof (cases rule: layout_Cons_cases)
    case (zero q')
    have pn: "p ! ?n = 0" using nth_drop' [of 0] nL zero(1) by simp
    have d': "drop (Suc ?n) p = q'"
      using zero(1) by (metis drop_Suc list.sel(3) tl_drop)
    have nx: "p \<in> set rest"
      if pl: "place L runs known line run_idx pos (position + 1) = Inr rest" for rest
    proof (rule place.IH(1) [OF le pl runs ri lk ll lp pos0 _ zl cons ag])
      show "pos \<le> position + 1" using pp by simp
      show "\<forall>i. nat pos \<le> i \<and> i < nat (position + 1) \<and> i < nat L \<longrightarrow> p ! i = 0"
        using zp pn p0 by (auto simp: nat_add_distrib less_Suc_eq)
      show "layout (drop run_idx runs) (drop (nat (position + 1)) p)"
        using zero(2) d' p0 by (simp add: dr nat_add_distrib)
    qed
    from place.hyps show ?thesis
    proof (cases rule: place_cases)
      case (stop run0)
      with le show ?thesis by simp
    next
      case (skip run0)
      with nx show ?thesis by simp
    next
      case (fits run0 found rest)
      with nx show ?thesis by simp
    qed
  next
    case (block tail)
    let ?r = "nat run"
    have dl: "length (drop ?n p) = ?r + length tail" using block(1) by simp
    have dl': "nat L = ?n + ?r + length tail"
    proof -
      have "length (drop ?n p) = nat L - ?n" by (simp add: lp)
      with dl nL show ?thesis by linarith
    qed
    then have bound: "?n + ?r \<le> nat L" by simp
    have blk: "p ! i = 1" if "?n \<le> i" "i < ?n + ?r" for i
    proof -
      have "p ! (?n + (i - ?n)) = drop ?n p ! (i - ?n)"
        by (rule nth_drop') (use that bound in simp)
      moreover have "i - ?n < ?r" using that by linarith
      moreover have "?n + (i - ?n) = i" using that by simp
      ultimately show ?thesis by (simp add: block(1) nth_append)
    qed
    have after: "p ! i = tail ! (i - (?n + ?r))" if "?n + ?r \<le> i" "i < nat L" for i
    proof -
      have "p ! (?n + (i - ?n)) = drop ?n p ! (i - ?n)"
        by (rule nth_drop') (use that in simp)
      moreover have "\<not> i - ?n < ?r" using that by linarith
      moreover have "?n + (i - ?n) = i" using that by simp
      moreover have "i - ?n - ?r = i - (?n + ?r)" by simp
      ultimately show ?thesis by (simp add: block(1) nth_append)
    qed
    have okb: "ok_block L known position run = Inr True"
    proof -
      have "ok_block_cells known (py_range position (position + run)) = Inr True"
      proof (rule ok_block_cells_True, intro ballI)
        fix i assume "i \<in> set (py_range position (position + run))"
        then have i: "position \<le> i" "i < position + run" by (simp_all add: in_py_range)
        then have n: "?n \<le> nat i" "nat i < ?n + ?r" using p0 r1 by simp_all
        with bound have iL: "nat i < nat L" by linarith
        from blk [OF n] cons [rule_format, OF iL] have "known ! nat i \<noteq> 0" by auto
        with i p0 iL lk show "0 \<le> i \<and> nat i < length known \<and> known ! nat i \<noteq> 0" by simp
      qed
      moreover have "position + run \<le> L" using bound p0 r1 by simp
      ultimately show ?thesis using p0 by (simp add: ok_block_def)
    qed
    from place.hyps show ?thesis
    proof (cases rule: place_cases)
      case (stop run0)
      with le show ?thesis by simp
    next
      case (skip run0)
      with g okb show ?thesis by simp
    next
      case (fits run0 found rest)
      with g have run0: "run0 = run" by simp
      note pb = fits(4) [unfolded run0]
      have line1_nth: "line1 ! i = (if ?n \<le> i \<and> i < ?n + ?r then 1 else line ! i)"
        if "write_block line position run = Inr line1" "i < nat L" for line1 i
        using write_block_nth [OF that(1) p0 r1] that(2) ll by simp
      have line1_len: "length line1 = nat L"
        if "write_block line position run = Inr line1" for line1
        using write_block_length [OF that] ll by simp
      have before: "p ! i = line1 ! i"
        if w: "write_block line position run = Inr line1" and i: "i < ?n + ?r" for line1 i
      proof -
        have iL: "i < nat L" using i bound by simp
        consider "i < nat pos" | "nat pos \<le> i" "i < ?n" | "?n \<le> i" by linarith
        then show ?thesis
        proof cases
          case 1
          then have "\<not> ?n \<le> i" using pp pos0 by linarith
          then have "line1 ! i = line ! i" using line1_nth [OF w iL] by simp
          with ag [rule_format, OF 1 iL] show ?thesis by simp
        next
          case 2
          then have "\<not> ?n \<le> i" by linarith
          then have "line1 ! i = line ! i" using line1_nth [OF w iL] by simp
          moreover have "line ! i = 0" using zl 2 iL by blast
          moreover have "p ! i = 0" using zp 2 iL by blast
          ultimately show ?thesis by simp
        next
          case 3
          then have "line1 ! i = 1" using line1_nth [OF w iL] i by simp
          with blk [OF 3 i] show ?thesis by simp
        qed
      qed
      have "p \<in> set found"
        using pb
      proof (cases rule: place_block_cases)
        case (yield line1)
        from yield(2) have "rs' = []" by (simp add: rs'_def)
        with block(2) have tz: "\<forall>x \<in> set tail. x = 0" by simp
        have "p = line1"
        proof (rule nth_equalityI)
          show "length p = length line1" using lp line1_len [OF yield(1)] by simp
          fix i assume "i < length p"
          then have iL: "i < nat L" using lp by simp
          show "p ! i = line1 ! i"
          proof (cases "i < ?n + ?r")
            case True
            then show ?thesis by (rule before [OF yield(1)])
          next
            case False
            then have a: "p ! i = tail ! (i - (?n + ?r))" using after iL by simp
            have "i - (?n + ?r) < length tail" using False iL dl' by linarith
            with tz a have "p ! i = 0" by simp
            moreover have "nat pos \<le> i" using False pp pos0 by simp
            ultimately show ?thesis using zl iL False line1_nth [OF yield(1) iL] by simp
          qed
        qed
        with yield show ?thesis by simp
      next
        case (clash line1)
        from clash(2) have "rs' = []" by (simp add: rs'_def)
        with block(2) have tz: "\<forall>x \<in> set tail. x = 0" by simp
        have "p = line1"
        proof (rule nth_equalityI)
          show "length p = length line1" using lp line1_len [OF clash(1)] by simp
          fix i assume "i < length p"
          then have iL: "i < nat L" using lp by simp
          show "p ! i = line1 ! i"
          proof (cases "i < ?n + ?r")
            case True
            then show ?thesis by (rule before [OF clash(1)])
          next
            case False
            then have a: "p ! i = tail ! (i - (?n + ?r))" using after iL by simp
            have "i - (?n + ?r) < length tail" using False iL dl' by linarith
            with tz a have "p ! i = 0" by simp
            moreover have "nat pos \<le> i" using False pp pos0 by simp
            ultimately show ?thesis using zl iL False line1_nth [OF clash(1) iL] by simp
          qed
        qed
        moreover have "consistent_fill L known p = Inr True"
          unfolding consistent_fill_def
          by (rule consistent_cells_True) (use cons lk lp in \<open>auto simp: in_py_range\<close>)
        ultimately show ?thesis using clash(3) by simp
      next
        case (gap line1)
        from gap(2) ri have "rs' \<noteq> []" by (simp add: rs'_def)
        with block(3) obtain q' where t: "tail = 0 # q'" by blast
        have gL: "?n + ?r < nat L" unfolding dl' t by simp
        have "p ! (?n + ?r) = 0" using after [of "?n + ?r"] gL t by simp
        with cons [rule_format, OF gL] have "known ! (?n + ?r) \<noteq> 1" by auto
        moreover have "nat (position + run) = ?n + ?r" using p0 r1 by (simp add: nat_add_distrib)
        ultimately have "gap_is_filled L known (position + run) = Inr False"
          using gL lk p0 r1 by (simp add: gap_is_filled_def py_get_nonneg)
        with gap(3) show ?thesis by simp
      next
        case (pruned line1 line2)
        have l1L: "length line1 = nat L" by (rule line1_len [OF pruned(1)])
        have "line2 = line1"
        proof (rule clear_gap_zero [OF pruned(4)])
          show "0 \<le> position + run" using p0 r1 by simp
          show "nat (position + run) < length line1 \<longrightarrow> line1 ! nat (position + run) = 0"
            using line1_nth [OF pruned(1), of "nat (position + run)"] l1L zl p0 r1 pp pos0
            by (auto simp: nat_add_distrib)
        qed
        have "known_ones_covered known line2 (py_range pos (position + run)) = Inr True"
        proof (rule known_ones_covered_True, intro ballI)
          fix i assume "i \<in> set (py_range pos (position + run))"
          then have i: "pos \<le> i" "i < position + run" by (simp_all add: in_py_range)
          then have n: "nat pos \<le> nat i" "nat i < ?n + ?r" using p0 r1 pos0 by simp_all
          with bound have iL: "nat i < nat L" by linarith
          have "line1 ! nat i = 1" if "known ! nat i = 1"
          proof -
            from cons [rule_format, OF iL] that have "p ! nat i = 1" by auto
            with before [OF pruned(1) n(2)] show ?thesis by simp
          qed
          with i pos0 iL lk l1L \<open>line2 = line1\<close>
          show "0 \<le> i \<and> nat i < length known \<and> nat i < length line2 \<and>
                (known ! nat i = 1 \<longrightarrow> line2 ! nat i = 1)" by simp
        qed
        with pruned(5) show ?thesis by simp
      next
        case (deeper line1 line2)
        from deeper(2) ri have ne': "rs' \<noteq> []" and ri': "Suc run_idx < length runs"
          by (simp_all add: rs'_def)
        with block(3) obtain q' where t: "tail = 0 # q'" and lq: "layout rs' q'" by blast
        have l1L: "length line1 = nat L" by (rule line1_len [OF deeper(1)])
        let ?m = "nat (position + run + 1)"
        have m: "?m = Suc (?n + ?r)" using p0 r1 by (simp add: nat_add_distrib)
        have gL: "?n + ?r < nat L" unfolding dl' t by simp
        have pg: "p ! (?n + ?r) = 0" using after [of "?n + ?r"] gL t by simp
        have l2: "line2 = line1"
        proof (rule clear_gap_zero [OF deeper(4)])
          show "0 \<le> position + run" using p0 r1 by simp
          show "nat (position + run) < length line1 \<longrightarrow> line1 ! nat (position + run) = 0"
            using line1_nth [OF deeper(1), of "nat (position + run)"] l1L zl p0 r1 pp pos0
            by (auto simp: nat_add_distrib)
        qed
        show ?thesis
        proof (rule place.IH(2) [OF g le okb deeper(1,2,3,4,5,6) runs ri' lk _ lp])
          show "length line2 = nat L" using l2 l1L by simp
          show "0 \<le> position + run + 1" using p0 r1 by simp
          show "position + run + 1 \<le> position + run + 1" by simp
          show "\<forall>i. ?m \<le> i \<and> i < nat L \<longrightarrow> line2 ! i = 0"
            using line1_nth [OF deeper(1)] zl pp pos0 unfolding l2 m by auto
          show "\<forall>i < nat L. known ! i = - 1 \<or> p ! i = known ! i" by (rule cons)
          show "\<forall>i < ?m. i < nat L \<longrightarrow> p ! i = line2 ! i"
          proof (intro allI impI)
            fix i assume i: "i < ?m" "i < nat L"
            show "p ! i = line2 ! i"
            proof (cases "i < ?n + ?r")
              case True
              then show ?thesis unfolding l2 by (rule before [OF deeper(1)])
            next
              case False
              with i m have ie: "i = ?n + ?r" by simp
              have "nat pos \<le> ?n + ?r" using pp pos0 by linarith
              with zl gL have "line ! (?n + ?r) = 0" by blast
              with pg line1_nth [OF deeper(1) gL] show ?thesis
                unfolding l2 ie by simp
            qed
          qed
          show "\<forall>i. ?m \<le> i \<and> i < ?m \<and> i < nat L \<longrightarrow> p ! i = 0" by simp
          have "drop ?m p = drop (Suc ?r) (drop ?n p)" unfolding m by (simp add: add.commute)
          also have "\<dots> = q'" unfolding block(1) t by simp
          finally show "layout (drop (Suc run_idx) runs) (drop ?m p)"
            using lq by (simp add: rs'_def)
        qed
      qed
      with fits show ?thesis by simp
    qed
  qed
qed

lemma legal_pattern_iff:
  "legal_pattern L runs known p \<longleftrightarrow>
     length p = nat L \<and> bits p \<and> line_groups_of_ones p = runs \<and>
     (\<forall>i < nat L. (known ! i = 0 \<longrightarrow> p ! i \<noteq> 1) \<and> (known ! i = 1 \<longrightarrow> p ! i = 1))"
  by (auto simp: legal_pattern_def is_line_fully_known_bits list_all_iff)

lemma known_cases:
  assumes "set known \<subseteq> {- 1, 0, 1 :: int}" and "i < length known"
  shows "known ! i = - 1 \<or> known ! i = 0 \<or> known ! i = 1"
proof -
  have "known ! i \<in> set known" using assms(2) by simp
  with assms(1) show ?thesis by auto
qed

lemma enumerate_complete:
  assumes L: "0 \<le> L" and lk: "length known = nat L" and kv: "set known \<subseteq> {- 1, 0, 1}"
    and runs: "\<forall>r \<in> set runs. 1 \<le> r"
    and ps: "enumerate_line_patterns L runs known = Inr ps"
  shows "p \<in> set ps \<longleftrightarrow> legal_pattern L runs known p"
proof
  assume p: "p \<in> set ps"
  note y = enumerate_yields [OF ps p]
  have "layout runs p" by (rule enumerate_layout [OF ps p runs])
  then have "bits p \<and> line_groups_of_ones p = runs"
    using layout_iff_groups [OF runs] by simp
  moreover have "(known ! i = 0 \<longrightarrow> p ! i \<noteq> 1) \<and> (known ! i = 1 \<longrightarrow> p ! i = 1)"
    if "i < nat L" for i
    using y(3) [of i] that lk by auto
  ultimately show "legal_pattern L runs known p"
    using y(1) by (simp add: legal_pattern_iff)
next
  assume "legal_pattern L runs known p"
  then have len: "length p = nat L" and b: "bits p" and g: "line_groups_of_ones p = runs"
    and kn: "\<forall>i < nat L. (known ! i = 0 \<longrightarrow> p ! i \<noteq> 1) \<and> (known ! i = 1 \<longrightarrow> p ! i = 1)"
    by (simp_all add: legal_pattern_iff)
  have lay: "layout runs p" using layout_iff_groups [OF runs] b g by simp
  have cons: "\<forall>i < nat L. known ! i = - 1 \<or> p ! i = known ! i"
  proof (intro allI impI)
    fix i assume i: "i < nat L"
    then have "p ! i \<in> set p" using len by simp
    with b have "p ! i = 0 \<or> p ! i = 1" by (simp add: bits_def)
    moreover have "known ! i = - 1 \<or> known ! i = 0 \<or> known ! i = 1"
      by (rule known_cases [OF kv]) (use i lk in simp)
    ultimately show "known ! i = - 1 \<or> p ! i = known ! i"
      using kn [rule_format, OF i] by auto
  qed
  show "p \<in> set ps"
  proof (cases "runs = []")
    case True
    with lay have "\<forall>x \<in> set p. x = 0" by simp
    then have pz: "p = replicate (nat L) 0" using len by (simp add: replicate_eqI)
    have "known ! i = 0 \<or> known ! i = - 1" if "i < length known" for i
    proof -
      from that lk have i: "i < nat L" by simp
      with cons [rule_format, OF i] show ?thesis unfolding pz by auto
    qed
    then have "list_all (\<lambda>k. k = 0 \<or> k = - 1) known" by (simp add: list_all_length)
    with ps True pz show ?thesis by (auto simp: enumerate_line_patterns_def)
  next
    case False
    with ps L have pl: "place L runs known (replicate (nat L) 0) 0 0 0 = Inr ps"
      by (auto simp: enumerate_line_patterns_def split: if_splits sum.splits)
    show ?thesis
      by (rule place_complete [OF pl runs _ lk _ len]) (use False cons lay in simp_all)
  qed
qed

section \<open>The counts of the deducer\<close>

lemma count_step_eq:
  "i < length oc \<Longrightarrow>
   count_step (i, v) oc = Inr (if v = 1 then oc[i := oc ! i + 1] else oc)"
  by (simp add: count_step_def py_get_def py_set_def py_norm_def)

lemma count_enumerate:
  "k + length q \<le> length oc \<Longrightarrow>
   \<exists>oc'. for_each count_step (enumerate k q) oc = Inr oc' \<and> length oc' = length oc \<and>
     (\<forall>i < length oc. oc' ! i =
         oc ! i + (if k \<le> i \<and> i < k + length q \<and> q ! (i - k) = 1 then 1 else 0))"
proof (induction q arbitrary: k oc)
  case Nil
  then show ?case by simp
next
  case (Cons v q)
  let ?oc = "if v = 1 then oc[k := oc ! k + 1] else oc"
  have s: "count_step (k, v) oc = Inr ?oc"
    using Cons.prems by (intro count_step_eq) simp
  have "Suc k + length q \<le> length ?oc" using Cons.prems by simp
  from Cons.IH [OF this] obtain oc' where
    f: "for_each count_step (enumerate (Suc k) q) ?oc = Inr oc'" and
    l: "length oc' = length ?oc" and
    n: "\<forall>i < length ?oc. oc' ! i =
         ?oc ! i + (if Suc k \<le> i \<and> i < Suc k + length q \<and> q ! (i - Suc k) = 1 then 1 else 0)"
    by blast
  have "for_each count_step (enumerate k (v # q)) oc = Inr oc'"
    using s f by simp
  moreover have "length oc' = length oc" using l by simp
  moreover have "oc' ! i =
         oc ! i + (if k \<le> i \<and> i < k + length (v # q) \<and> (v # q) ! (i - k) = 1 then 1 else 0)"
    if "i < length oc" for i
  proof (cases "i = k")
    case True
    with n that Cons.prems show ?thesis by simp
  next
    case False
    then have "?oc ! i = oc ! i" by simp
    moreover have "i - k = Suc (i - Suc k)" if "k \<le> i" using that False by simp
    ultimately show ?thesis using n \<open>i < length oc\<close> False by (auto simp: less_Suc_eq_le)
  qed
  ultimately show ?case by blast
qed

lemma count_ones_eq:
  assumes "length p = length oc"
  shows "\<exists>oc'. count_ones p oc = Inr oc' \<and> length oc' = length oc \<and>
           (\<forall>i < length oc. oc' ! i = oc ! i + (if p ! i = 1 then 1 else 0))"
proof -
  have "count_ones p oc = for_each count_step (enumerate 0 p) oc"
    by (simp add: count_ones_def count_step_def)
  with count_enumerate [of 0 p oc] assms show ?thesis by simp
qed

lemma count_patterns_eq:
  "\<forall>p \<in> set ps. length p = length oc \<Longrightarrow>
   \<exists>oc'. for_each count_ones ps oc = Inr oc' \<and> length oc' = length oc \<and>
     (\<forall>i < length oc. oc' ! i = oc ! i + int (length (filter (\<lambda>p. p ! i = 1) ps)))"
proof (induction ps arbitrary: oc)
  case Nil
  then show ?case by simp
next
  case (Cons p ps)
  from count_ones_eq [of p oc] Cons.prems obtain oc1 where
    c: "count_ones p oc = Inr oc1" and l: "length oc1 = length oc" and
    n: "\<forall>i < length oc. oc1 ! i = oc ! i + (if p ! i = 1 then 1 else 0)"
    by auto
  from Cons.prems l have "\<forall>p \<in> set ps. length p = length oc1" by simp
  from Cons.IH [OF this] obtain oc' where
    f: "for_each count_ones ps oc1 = Inr oc'" and l': "length oc' = length oc1" and
    n': "\<forall>i < length oc1. oc' ! i = oc1 ! i + int (length (filter (\<lambda>p. p ! i = 1) ps))"
    by blast
  have "for_each count_ones (p # ps) oc = Inr oc'" using c f by simp
  moreover have "length oc' = length oc" using l l' by simp
  moreover have "\<forall>i < length oc. oc' ! i = oc ! i + int (length (filter (\<lambda>p. p ! i = 1) (p # ps)))"
    using n n' l by simp
  ultimately show ?case by blast
qed

lemma filter_all_length:
  "length (filter P xs) = length xs \<longleftrightarrow> (\<forall>x \<in> set xs. P x)"
  by (metis filter_True filter_id_conv length_filter_less less_irrefl)

lemma deduce_eq:
  assumes ps: "enumerate_line_patterns L runs known = Inr ps"
  shows "deduce_from_possibilities L runs known =
           Inr (if ps = [] then ([], [])
                else (filter (\<lambda>i. \<forall>p \<in> set ps. p ! nat i = 1) (py_range 0 L),
                      filter (\<lambda>i. \<forall>p \<in> set ps. p ! nat i \<noteq> 1) (py_range 0 L)))"
proof (cases "ps = []")
  case True
  with ps show ?thesis by (simp add: deduce_from_possibilities_def)
next
  case False
  have "\<forall>p \<in> set ps. length p = length (replicate (nat L) (0::int))"
    using enumerate_yields(1) [OF ps] by simp
  from count_patterns_eq [OF this] obtain oc where
    f: "for_each count_ones ps (replicate (nat L) 0) = Inr oc" and
    n: "\<forall>i < nat L. oc ! i = int (length (filter (\<lambda>p. p ! i = 1) ps))"
    by auto
  have a: "filter (\<lambda>i. oc ! nat i = int (length ps)) (py_range 0 L)
         = filter (\<lambda>i. \<forall>p \<in> set ps. p ! nat i = 1) (py_range 0 L)"
    by (rule filter_cong [OF refl]) (use n in \<open>auto simp: py_range_def filter_all_length\<close>)
  have b: "filter (\<lambda>i. oc ! nat i = 0) (py_range 0 L)
         = filter (\<lambda>i. \<forall>p \<in> set ps. p ! nat i \<noteq> 1) (py_range 0 L)"
    by (rule filter_cong [OF refl]) (use n in \<open>auto simp: py_range_def filter_empty_conv\<close>)
  show ?thesis
    using ps False f by (simp add: deduce_from_possibilities_def Let_def a b)
qed

lemma filter_disjoint_length:
  "\<forall>x \<in> set xs. \<not> (P x \<and> Q x) \<Longrightarrow> length (filter P xs) + length (filter Q xs) \<le> length xs"
  by (induction xs) auto

lemma deduce_generated:
  assumes "0 \<le> L" and "length known = nat L" and "\<forall>r \<in> set runs. 1 \<le> r"
  shows "\<exists>ps mf me.
           enumerate_line_patterns L runs known = Inr ps \<and>
           deduce_from_possibilities L runs known = Inr (mf, me) \<and>
           (ps \<noteq> [] \<longrightarrow>
              mf = filter (\<lambda>i. \<forall>p \<in> set ps. p ! nat i = 1) [0..L - 1] \<and>
              me = filter (\<lambda>i. \<forall>p \<in> set ps. p ! nat i \<noteq> 1) [0..L - 1]) \<and>
           (ps = [] \<longrightarrow> mf = [] \<and> me = []) \<and>
           set mf \<inter> set me = {} \<and>
           int (length mf + length me) \<le> L"
proof -
  from enumerate_total [OF assms]
  obtain ps where ps: "enumerate_line_patterns L runs known = Inr ps" by blast
  define mf where "mf = (if ps = [] then [] else
     filter (\<lambda>i. \<forall>p \<in> set ps. p ! nat i = 1) [0..L - 1])"
  define me where "me = (if ps = [] then [] else
     filter (\<lambda>i. \<forall>p \<in> set ps. p ! nat i \<noteq> 1) [0..L - 1])"
  have d: "deduce_from_possibilities L runs known = Inr (mf, me)"
    by (simp add: deduce_eq [OF ps] mf_def me_def py_range_def)
  have ex: "\<not> ((\<forall>p \<in> set ps. p ! nat i = 1) \<and> (\<forall>p \<in> set ps. p ! nat i \<noteq> 1))"
    if "ps \<noteq> []" for i
    using that by (cases ps) auto
  have dis: "set mf \<inter> set me = {}"
    using ex by (auto simp: mf_def me_def)
  have "length mf + length me \<le> length [0..L - 1]"
  proof (cases "ps = []")
    case True
    then show ?thesis by (simp add: mf_def me_def)
  next
    case False
    then show ?thesis
      unfolding mf_def me_def using ex [OF False]
      by (simp only: if_False) (rule filter_disjoint_length, blast)
  qed
  then have "int (length mf + length me) \<le> L"
    using assms(1) by simp
  with ps d dis show ?thesis
    by (intro exI [of _ ps] exI [of _ mf] exI [of _ me]) (simp add: mf_def me_def)
qed

text \<open>
  Claim C7. For a line of length \<open>L\<close> with its \<open>L\<close> knowledge entries (each \<open>-1\<close>, \<open>0\<close> or
  \<open>1\<close>) and run lengths at least 1, the generator returns the possibility set of the line,
  the set of all its legal patterns, and \<^verbatim>\<open>deduce_from_possibilities\<close> returns; when a
  legal pattern exists, \<^verbatim>\<open>must_fill\<close> is exactly the list of the positions that are 1 in
  every legal pattern and \<^verbatim>\<open>must_empty\<close> exactly the list of the positions that are 1 in
  no legal pattern; when none exists both lists are empty; in all cases the two lists are
  disjoint and the sum of their sizes is at most \<open>L\<close>.
\<close>

theorem deduce_from_possibilities_exact:
  assumes "0 \<le> L" and "length known = nat L" and "set known \<subseteq> {- 1, 0, 1}"
    and "\<forall>r \<in> set runs. 1 \<le> r"
  shows "\<exists>ps mf me.
           enumerate_line_patterns L runs known = Inr ps \<and>
           set ps = {p. legal_pattern L runs known p} \<and>
           deduce_from_possibilities L runs known = Inr (mf, me) \<and>
           ((\<exists>p. legal_pattern L runs known p) \<longrightarrow>
              mf = filter (\<lambda>i. \<forall>p. legal_pattern L runs known p \<longrightarrow> p ! nat i = 1) [0..L - 1] \<and>
              me = filter (\<lambda>i. \<forall>p. legal_pattern L runs known p \<longrightarrow> p ! nat i \<noteq> 1) [0..L - 1]) \<and>
           ((\<nexists>p. legal_pattern L runs known p) \<longrightarrow> mf = [] \<and> me = []) \<and>
           set mf \<inter> set me = {} \<and>
           int (length mf + length me) \<le> L"
proof -
  from deduce_generated [OF assms(1,2,4)]
  obtain ps mf me where ps: "enumerate_line_patterns L runs known = Inr ps"
    and d: "deduce_from_possibilities L runs known = Inr (mf, me)"
    and ne: "ps \<noteq> [] \<longrightarrow>
              mf = filter (\<lambda>i. \<forall>p \<in> set ps. p ! nat i = 1) [0..L - 1] \<and>
              me = filter (\<lambda>i. \<forall>p \<in> set ps. p ! nat i \<noteq> 1) [0..L - 1]"
    and em: "ps = [] \<longrightarrow> mf = [] \<and> me = []"
    and dis: "set mf \<inter> set me = {}"
    and len: "int (length mf + length me) \<le> L"
    by (elim exE conjE)
  have mem: "p \<in> set ps \<longleftrightarrow> legal_pattern L runs known p" for p
    by (rule enumerate_complete [OF assms ps])
  then have s: "set ps = {p. legal_pattern L runs known p}" by blast
  have nonempty: "ps \<noteq> [] \<longleftrightarrow> (\<exists>p. legal_pattern L runs known p)"
  proof -
    have "ps \<noteq> [] \<longleftrightarrow> (\<exists>p. p \<in> set ps)" by (cases ps) auto
    then show ?thesis by (simp add: mem)
  qed
  have ball: "(\<forall>p \<in> set ps. Q p) \<longleftrightarrow> (\<forall>p. legal_pattern L runs known p \<longrightarrow> Q p)" for Q
    unfolding s by simp
  have fill: "(\<exists>p. legal_pattern L runs known p) \<longrightarrow>
              mf = filter (\<lambda>i. \<forall>p. legal_pattern L runs known p \<longrightarrow> p ! nat i = 1) [0..L - 1] \<and>
              me = filter (\<lambda>i. \<forall>p. legal_pattern L runs known p \<longrightarrow> p ! nat i \<noteq> 1) [0..L - 1]"
    using ne unfolding nonempty ball .
  have none: "(\<nexists>p. legal_pattern L runs known p) \<longrightarrow> mf = [] \<and> me = []"
    using em nonempty by blast
  from ps s d fill none dis len show ?thesis
    by (intro exI [of _ ps] exI [of _ mf] exI [of _ me] conjI)
qed

theorem deduce_from_possibilities_exact_witness:
  "(0::int) \<le> 5 \<and> length [- 1, - 1, - 1, - 1, 0 :: int] = nat 5 \<and>
   set [- 1, - 1, - 1, - 1, 0 :: int] \<subseteq> {- 1, 0, 1} \<and> (1::int) \<le> 3 \<and>
   legal_pattern 5 [3] [- 1, - 1, - 1, - 1, 0] [1, 1, 1, 0, 0] \<and>
   enumerate_line_patterns 5 [3] [- 1, - 1, - 1, - 1, 0]
     = Inr [[1, 1, 1, 0, 0], [0, 1, 1, 1, 0]] \<and>
   set [[1, 1, 1, 0, 0], [0, 1, 1, 1, 0]] = {p. legal_pattern 5 [3] [- 1, - 1, - 1, - 1, 0] p} \<and>
   deduce_from_possibilities 5 [3] [- 1, - 1, - 1, - 1, 0] = Inr ([1, 2], [4]) \<and>
   [1, 2] = filter (\<lambda>i. \<forall>p. legal_pattern 5 [3] [- 1, - 1, - 1, - 1, 0] p \<longrightarrow> p ! nat i = 1)
              [0..5 - 1] \<and>
   [4] = filter (\<lambda>i. \<forall>p. legal_pattern 5 [3] [- 1, - 1, - 1, - 1, 0] p \<longrightarrow> p ! nat i \<noteq> 1)
              [0..5 - 1]"
proof -
  have h1: "(0::int) \<le> 5" by simp
  have h2: "length [- 1, - 1, - 1, - 1, 0 :: int] = nat 5" by simp
  have h3: "set [- 1, - 1, - 1, - 1, 0 :: int] \<subseteq> {- 1, 0, 1}" by simp
  have h4: "\<forall>r \<in> set [3 :: int]. 1 \<le> r" by simp
  have l: "legal_pattern 5 [3] [- 1, - 1, - 1, - 1, 0] [1, 1, 1, 0, 0]" by code_simp
  then have x: "\<exists>p. legal_pattern 5 [3] [- 1, - 1, - 1, - 1, 0] p" by blast
  have e: "enumerate_line_patterns 5 [3] [- 1, - 1, - 1, - 1, 0]
             = Inr [[1, 1, 1, 0, 0], [0, 1, 1, 1, 0]]"
    by code_simp
  have d: "deduce_from_possibilities 5 [3] [- 1, - 1, - 1, - 1, 0] = Inr ([1, 2], [4])"
    by code_simp
  have "set [[1, 1, 1, 0, 0], [0, 1, 1, 1, 0]] = {p. legal_pattern 5 [3] [- 1, - 1, - 1, - 1, 0] p} \<and>
        [1, 2] = filter (\<lambda>i. \<forall>p. legal_pattern 5 [3] [- 1, - 1, - 1, - 1, 0] p \<longrightarrow> p ! nat i = 1)
              [0..5 - 1] \<and>
        [4] = filter (\<lambda>i. \<forall>p. legal_pattern 5 [3] [- 1, - 1, - 1, - 1, 0] p \<longrightarrow> p ! nat i \<noteq> 1)
              [0..5 - 1]"
    using deduce_from_possibilities_exact [OF h1 h2 h3 h4] x unfolding e d
    by (elim exE conjE) (simp only: sum.inject prod.inject simp_thms, blast)
  with h1 h2 h3 l e d show ?thesis by simp
qed

section \<open>The overlap deducer stays below the possibility-based deducer\<close>

lemma sum_take_nonneg: "\<forall>r \<in> set rs. (1::int) \<le> r \<Longrightarrow> 0 \<le> sum_list (take i rs)"
proof (rule sum_list_nonneg)
  fix x
  assume a: "\<forall>r \<in> set rs. (1::int) \<le> r" and "x \<in> set (take i rs)"
  then have "x \<in> set rs" by (meson in_set_takeD)
  with a have "1 \<le> x" by simp
  then show "0 \<le> x" by simp
qed

lemma layout_forced:
  "layout rs q \<Longrightarrow> \<forall>r \<in> set rs. 1 \<le> r \<Longrightarrow> i < length rs \<Longrightarrow>
   int (length q) - (sum_list (drop i rs) + (int (length rs) - 1 - int i)) \<le> int j \<Longrightarrow>
   int j < sum_list (take i rs) + int i + rs ! i \<Longrightarrow>
   j < length q \<and> q ! j = 1"
proof (induction rs q arbitrary: i j rule: layout.induct)
  case (1 q)
  then show ?case by simp
next
  case (2 r q)
  then obtain a b where q: "q = replicate a 0 @ replicate (nat r) 1 @ replicate b 0"
    by auto
  from 2 have i: "i = 0" and r: "1 \<le> r" by simp_all
  from "2.prems" have lo: "a \<le> j" and hi: "int j < r"
    by (simp_all add: q i)
  have "j < length q" using hi r by (simp add: q)
  moreover have "q ! j = (replicate (nat r) 1 @ replicate b 0) ! (j - a)"
    using lo by (simp add: q nth_append)
  then have "q ! j = 1" using hi lo r by (simp add: nth_append)
  ultimately show ?case by simp
next
  case (3 r r' rs q)
  then obtain a q' where q: "q = replicate a 0 @ replicate (nat r) 1 @ 0 # q'"
    and l: "layout (r' # rs) q'" by auto
  from "3.prems" have r: "1 \<le> r" and rs: "\<forall>x \<in> set (r' # rs). 1 \<le> x" by simp_all
  have len: "sum_list (r' # rs) + int (length (r' # rs)) - 1 \<le> int (length q')"
    by (rule layout_length [OF l _ rs]) simp
  have lq: "int (length q) = int a + r + 1 + int (length q')"
    using r by (simp add: q)
  show ?case
  proof (cases i)
    case 0
    with "3.prems" len lq have lo: "int a \<le> int j" and hi: "int j < r"
      by simp_all
    have "j < length q" using hi lq by simp
    moreover have "q ! j = (replicate (nat r) 1 @ 0 # q') ! (j - a)"
      using lo by (simp add: q nth_append)
    then have "q ! j = 1" using hi lo r by (simp add: nth_append)
    ultimately show ?thesis by simp
  next
    case (Suc i')
    have i': "i' < length (r' # rs)" using "3.prems" Suc by simp
    have tk: "0 \<le> sum_list (take i' (r' # rs))" by (rule sum_take_nonneg [OF rs])
    have sp: "sum_list (r' # rs) = sum_list (take i' (r' # rs)) + sum_list (drop i' (r' # rs))"
      by (metis append_take_drop_id sum_list_append)
    from "3.prems"(4) lq Suc
    have lo: "int a + r + 1 + int (length q')
                - (sum_list (drop i' (r' # rs)) + (int (length (r' # rs)) - 1 - int i')) \<le> int j"
      by simp
    with len tk sp have ge: "int a + r + 1 \<le> int j" by simp
    define j' where "j' = j - (a + nat r + 1)"
    have j: "j = a + nat r + 1 + j'" using ge r by (simp add: j'_def)
    have ij': "int j' = int j - (int a + r + 1)" using ge r by (simp add: j'_def)
    have "j' < length q' \<and> q' ! j' = 1"
    proof (rule "3.IH" [OF l rs i'])
      show "int (length q') - (sum_list (drop i' (r' # rs))
              + (int (length (r' # rs)) - 1 - int i')) \<le> int j'"
        using lo ij' by simp
      show "int j' < sum_list (take i' (r' # rs)) + int i' + (r' # rs) ! i'"
        using "3.prems"(5) Suc ij' by simp
    qed
    moreover have "q ! j = q' ! j'"
    proof -
      have "q = (replicate a 0 @ replicate (nat r) 1 @ [0]) @ q'" by (simp add: q)
      moreover have "length (replicate a (0::int) @ replicate (nat r) 1 @ [0]) = a + nat r + 1"
        by simp
      ultimately show ?thesis unfolding j by (metis nth_append_length_plus)
    qed
    ultimately show ?thesis using lq ij' by simp
  qed
qed

lemma overlap_below_generated:
  assumes runs: "\<forall>r \<in> set runs. 1 \<le> r"
    and ps: "enumerate_line_patterns L runs known = Inr ps" and ne: "ps \<noteq> []"
  shows "\<exists>mf me. deduce_from_possibilities L runs known = Inr (mf, me) \<and>
           set (overlap_fill_line L runs) \<subseteq> set mf"
proof -
  let ?mf = "filter (\<lambda>i. \<forall>p \<in> set ps. p ! nat i = 1) (py_range 0 L)"
  let ?me = "filter (\<lambda>i. \<forall>p \<in> set ps. p ! nat i \<noteq> 1) (py_range 0 L)"
  have d: "deduce_from_possibilities L runs known = Inr (?mf, ?me)"
    using deduce_eq [OF ps] ne by simp
  have "j \<in> set ?mf" if j: "j \<in> set (overlap_fill_line L runs)" for j
  proof -
    from j have rn: "runs \<noteq> []" by (auto simp: overlap_fill_line_def)
    from j have s: "0 \<le> slack L runs"
      using overlap_fill_line_eq [OF rn, of L] by (auto split: if_splits)
    with j have "j \<in> overlap_ranges L runs"
      using overlap_fill_line_eq [OF rn, of L] by (simp add: finite_overlap_ranges)
    then obtain i where i: "i < length runs"
      and lo: "latestStart L runs i \<le> j" and hi: "j \<le> earliestStart runs i + runs ! i - 1"
      by (auto simp: overlap_ranges_def)
    have sp: "sum_list runs = sum_list (take i runs) + sum_list (drop i runs)"
      by (metis append_take_drop_id sum_list_append)
    have tk: "0 \<le> sum_list (take i runs)" by (rule sum_take_nonneg [OF runs])
    have j0: "0 \<le> j"
      using lo s sp tk by (simp add: latestStart_def slack_def)
    have forced: "nat j < length p \<and> p ! nat j = 1" if p: "p \<in> set ps" for p
    proof (rule layout_forced [OF enumerate_layout [OF ps p runs] runs i])
      have lp: "int (length p) = L"
      proof -
        have "layout runs p" by (rule enumerate_layout [OF ps p runs])
        from layout_nonempty [OF this rn runs] enumerate_yields(1) [OF ps p]
        show ?thesis by (cases "0 \<le> L") auto
      qed
      show "int (length p) - (sum_list (drop i runs) + (int (length runs) - 1 - int i))
              \<le> int (nat j)"
        using lo j0 lp by (simp add: latestStart_def)
      show "int (nat j) < sum_list (take i runs) + int i + runs ! i"
        using hi j0 by (simp add: earliestStart_def)
    qed
    from ne obtain p0 where p0: "p0 \<in> set ps" by (cases ps) auto
    from forced [OF p0] enumerate_yields(1) [OF ps p0] have "j < L" by simp
    with j0 forced show ?thesis by (simp add: py_range_def)
  qed
  with d show ?thesis by blast
qed

text \<open>
  Claim C5. For a line with run lengths at least 1 and a knowledge vector (one entry per
  cell, each \<open>-1\<close>, \<open>0\<close> or \<open>1\<close>) for which a legal pattern exists,
  \<^verbatim>\<open>deduce_from_possibilities\<close> returns and every index returned by
  \<^verbatim>\<open>overlap_fill_line\<close> is in its \<^verbatim>\<open>must_fill\<close> list.
\<close>

theorem overlap_subset_must_fill:
  assumes lk: "length known = nat L" and kv: "set known \<subseteq> {- 1, 0, 1}"
    and runs: "\<forall>r \<in> set runs. 1 \<le> r"
    and legal: "legal_pattern L runs known p"
  shows "\<exists>mf me. deduce_from_possibilities L runs known = Inr (mf, me) \<and>
           set (overlap_fill_line L runs) \<subseteq> set mf"
proof (cases "runs = []")
  case True
  then have "\<exists>ps. enumerate_line_patterns L runs known = Inr ps"
    by (simp add: enumerate_line_patterns_def)
  then obtain ps where ps: "enumerate_line_patterns L runs known = Inr ps" by blast
  have "\<exists>mf me. deduce_from_possibilities L runs known = Inr (mf, me)"
    unfolding deduce_eq [OF ps] by (cases "ps = []") simp_all
  then obtain mf me
    where "deduce_from_possibilities L runs known = Inr (mf, me)" by blast
  moreover have "overlap_fill_line L runs = []" using True by (simp add: overlap_fill_line_def)
  ultimately show ?thesis by simp
next
  case False
  from legal have len: "length p = nat L" and b: "bits p" and g: "line_groups_of_ones p = runs"
    by (simp_all add: legal_pattern_iff)
  have "layout runs p" using layout_iff_groups [OF runs] b g by simp
  from layout_nonempty [OF this False runs] len have L: "0 \<le> L" by (cases "0 \<le> L") auto
  from enumerate_total [OF L lk runs]
  obtain ps where ps: "enumerate_line_patterns L runs known = Inr ps" by blast
  from legal have "p \<in> set ps" by (simp add: enumerate_complete [OF L lk kv runs ps])
  then have "ps \<noteq> []" by auto
  then show ?thesis by (rule overlap_below_generated [OF runs ps])
qed

theorem overlap_subset_must_fill_witness:
  "length [- 1, - 1, - 1, - 1, 0 :: int] = nat 5 \<and>
   set [- 1, - 1, - 1, - 1, 0 :: int] \<subseteq> {- 1, 0, 1} \<and> (1::int) \<le> 3 \<and>
   legal_pattern 5 [3] [- 1, - 1, - 1, - 1, 0] [0, 1, 1, 1, 0] \<and>
   deduce_from_possibilities 5 [3] [- 1, - 1, - 1, - 1, 0] = Inr ([1, 2], [4]) \<and>
   overlap_fill_line 5 [3] = [2] \<and>
   set (overlap_fill_line 5 [3]) \<subseteq> set [1, 2]"
proof -
  have h1: "length [- 1, - 1, - 1, - 1, 0 :: int] = nat 5" by simp
  have h2: "set [- 1, - 1, - 1, - 1, 0 :: int] \<subseteq> {- 1, 0, 1}" by simp
  have h3: "\<forall>r \<in> set [3 :: int]. 1 \<le> r" by simp
  have h4: "legal_pattern 5 [3] [- 1, - 1, - 1, - 1, 0] [0, 1, 1, 1, 0]" by code_simp
  have d: "deduce_from_possibilities 5 [3] [- 1, - 1, - 1, - 1, 0] = Inr ([1, 2], [4])"
    by code_simp
  have o: "overlap_fill_line 5 [3] = [2]" by code_simp
  have "set (overlap_fill_line 5 [3]) \<subseteq> set [1, 2]"
    using overlap_subset_must_fill [OF h1 h2 h3 h4] unfolding d by simp
  with h1 h2 h3 h4 d o show ?thesis by simp
qed

section \<open>The passes only decide unknown cells\<close>

lemma cell_refines_refl: "cell_refines x x"
  by (simp add: cell_refines_def)

lemma cell_refines_trans: "cell_refines x y \<Longrightarrow> cell_refines y z \<Longrightarrow> cell_refines x z"
  by (auto simp: cell_refines_def)

lemma row_refines_refl: "list_all2 cell_refines xs xs"
  by (simp add: list_all2_refl cell_refines_refl)

lemma grid_refines_refl: "grid_refines g g"
  by (simp add: grid_refines_def list_all2_refl row_refines_refl)

lemma row_refines_trans:
  "list_all2 cell_refines xs ys \<Longrightarrow> list_all2 cell_refines ys zs \<Longrightarrow> list_all2 cell_refines xs zs"
  using list_all2_trans [of cell_refines cell_refines cell_refines xs ys zs] cell_refines_trans
  by blast

lemma grid_refines_trans: "grid_refines a b \<Longrightarrow> grid_refines b c \<Longrightarrow> grid_refines a c"
  unfolding grid_refines_def
  using list_all2_trans [of "list_all2 cell_refines" "list_all2 cell_refines"
      "list_all2 cell_refines" a b c] row_refines_trans
  by blast

lemma row_unknown_mono:
  "list_all2 cell_refines xs ys \<Longrightarrow>
   length (filter (\<lambda>v. v = - 1) ys) \<le> length (filter (\<lambda>v. v = - 1) xs)"
  by (induction rule: list_all2_induct) (auto simp: cell_refines_def)

lemma unknown_count_mono: "grid_refines g g' \<Longrightarrow> unknown_count g' \<le> unknown_count g"
  unfolding grid_refines_def unknown_count_def
  by (induction rule: list_all2_induct) (auto dest: row_unknown_mono)

lemma grid_refines_iff:
  "grid_refines g g' \<longleftrightarrow>
     length g' = length g \<and>
     (\<forall>r < length g. length (g' ! r) = length (g ! r) \<and>
        (\<forall>c < length (g ! r).
           g' ! r ! c = g ! r ! c \<or> (g ! r ! c = - 1 \<and> (g' ! r ! c = 0 \<or> g' ! r ! c = 1))))"
  unfolding grid_refines_def list_all2_conv_all_nth cell_refines_def by auto

lemma progress_refl: "progress s s"
  by (simp add: progress_def grid_refines_refl)

lemma progress_trans: "progress a b \<Longrightarrow> progress b c \<Longrightarrow> progress a c"
  unfolding progress_def
  using unknown_count_mono [of "snd a" "snd b"] unknown_count_mono [of "snd b" "snd c"]
  by (auto intro: grid_refines_trans)

lemma for_each_progress:
  assumes "for_each f xs s = Inr s'"
    and "\<And>x t t'. x \<in> set xs \<Longrightarrow> f x t = Inr t' \<Longrightarrow> progress t t'"
  shows "progress s s'"
  by (rule for_each_invariant [OF assms(1), where P = "progress s"])
     (auto intro: progress_refl progress_trans assms(2))

lemma py_set_eq:
  "py_set xs i v = Inr ys \<Longrightarrow>
   \<exists>j < length xs. int j = py_norm xs i \<and> ys = xs[j := v] \<and> py_get xs i = Inr (xs ! j)"
  by (auto simp: py_set_def py_get_def Let_def split: if_splits intro!: exI [of _ "nat (py_norm xs i)"])

lemma py_get_eq:
  "py_get xs i = Inr x \<Longrightarrow> \<exists>j < length xs. int j = py_norm xs i \<and> x = xs ! j"
  by (auto simp: py_get_def Let_def split: if_splits intro!: exI [of _ "nat (py_norm xs i)"])

lemma grid_set_eq:
  assumes "grid_set g r c v = Inr g'"
  shows "\<exists>j k. j < length g \<and> k < length (g ! j) \<and> int j = py_norm g r \<and>
           int k = py_norm (g ! j) c \<and>
           g' = g[j := (g ! j)[k := v]] \<and> grid_get g r c = Inr (g ! j ! k)"
proof -
  from assms obtain row row' where r: "py_get g r = Inr row"
    and s: "py_set row c v = Inr row'" and t: "py_set g r row' = Inr g'"
    by (auto simp: grid_set_def split: sum.splits)
  from py_get_eq [OF r] obtain j where j: "j < length g" "int j = py_norm g r" "row = g ! j"
    by blast
  from py_set_eq [OF s] obtain k where k: "k < length row" "int k = py_norm row c"
    "row' = row[k := v]" "py_get row c = Inr (row ! k)"
    by blast
  from py_set_eq [OF t] obtain j' where j': "int j' = py_norm g r" "g' = g[j' := row']"
    by blast
  from j j' have "j' = j" by simp
  with j k j' r show ?thesis
    by (auto simp: grid_get_def)
qed

lemma filter_update_unknown:
  "k < length row \<Longrightarrow> row ! k = - 1 \<Longrightarrow> v \<noteq> - 1 \<Longrightarrow>
   Suc (length (filter (\<lambda>x. x = - 1) (row[k := v]))) = length (filter (\<lambda>x. x = (- 1 :: int)) row)"
proof (induction row arbitrary: k)
  case Nil
  then show ?case by simp
next
  case (Cons x row)
  then show ?case by (cases k) auto
qed

lemma unknown_count_update:
  assumes "j < length g" "k < length (g ! j)" "g ! j ! k = - 1" "v \<noteq> - 1"
  shows "unknown_count (g[j := (g ! j)[k := v]]) < unknown_count g"
proof -
  let ?f = "\<lambda>row. length (filter (\<lambda>x. x = (- 1 :: int)) row)"
  have "unknown_count (g[j := (g ! j)[k := v]])
          = sum_list ((map ?f g)[j := ?f ((g ! j)[k := v])])"
    by (simp add: unknown_count_def map_update)
  also have "\<dots> = sum_list (map ?f g) + ?f ((g ! j)[k := v]) - ?f (g ! j)"
    using assms(1) by (simp add: sum_list_update)
  also have "\<dots> < sum_list (map ?f g)"
  proof -
    have "?f (g ! j) \<in> set (map ?f g)" using assms(1) by simp
    then have "?f (g ! j) \<le> sum_list (map ?f g)" by (rule member_le_sum_list) simp
    with filter_update_unknown [OF assms(2,3,4)] show ?thesis by simp
  qed
  finally show ?thesis by (simp add: unknown_count_def)
qed

lemma grid_refines_update:
  assumes "j < length g" "k < length (g ! j)" "cell_refines (g ! j ! k) v"
  shows "grid_refines g (g[j := (g ! j)[k := v]])"
  unfolding grid_refines_iff using assms
  by (auto simp: nth_list_update cell_refines_def)

lemma fill_if_unknown_progress:
  assumes "fill_if_unknown r c s = Inr s'"
  shows "progress s s'"
proof (cases s)
  case (Pair changed g)
  from assms Pair obtain x where x: "grid_get g r c = Inr x"
    by (auto simp: fill_if_unknown_def split: sum.splits)
  show ?thesis
  proof (cases "x = - 1")
    case False
    with assms Pair x have "s' = s" by (simp add: fill_if_unknown_def)
    then show ?thesis by (simp add: progress_refl)
  next
    case True
    with assms Pair x obtain g' where g': "grid_set g r c 1 = Inr g'" and s': "s' = (True, g')"
      by (auto simp: fill_if_unknown_def split: sum.splits)
    from grid_set_eq [OF g'] x True obtain j k where
      jk: "j < length g" "k < length (g ! j)" "g' = g[j := (g ! j)[k := 1]]" "g ! j ! k = - 1"
      by auto
    have "grid_refines g g'"
      unfolding jk(3) by (rule grid_refines_update) (use jk in \<open>simp_all add: cell_refines_def\<close>)
    moreover have "unknown_count g' < unknown_count g"
      unfolding jk(3) by (rule unknown_count_update) (use jk in simp_all)
    ultimately show ?thesis by (simp add: progress_def Pair s')
  qed
qed

lemma overlap_row_progress: "overlap_row puzzle r s = Inr s' \<Longrightarrow> progress s s'"
  by (auto simp: overlap_row_def split: sum.splits
           elim!: for_each_progress fill_if_unknown_progress)

lemma overlap_col_progress: "overlap_col puzzle c s = Inr s' \<Longrightarrow> progress s s'"
  by (auto simp: overlap_col_def split: sum.splits
           elim!: for_each_progress fill_if_unknown_progress)

lemma apply_overlap_pass_progress:
  assumes "apply_overlap_pass puzzle g = Inr s'"
  shows "progress (False, g) s'"
proof -
  from assms obtain s1 where
    a: "for_each (overlap_row puzzle) (py_range 0 (size_n puzzle)) (False, g) = Inr s1" and
    b: "for_each (overlap_col puzzle) (py_range 0 (size_n puzzle)) s1 = Inr s'"
    by (auto simp: apply_overlap_pass_def Let_def split: sum.splits)
  have "progress (False, g) s1"
    by (rule for_each_progress [OF a]) (rule overlap_row_progress)
  moreover have "progress s1 s'"
    by (rule for_each_progress [OF b]) (rule overlap_col_progress)
  ultimately show ?thesis by (rule progress_trans)
qed

lemma grid_get_nonneg:
  "0 \<le> r \<Longrightarrow> 0 \<le> c \<Longrightarrow>
   grid_get g r c = (if nat r < length g \<and> nat c < length (g ! nat r)
                     then Inr (g ! nat r ! nat c) else Inl IndexError)"
  by (auto simp: grid_get_def py_get_def py_norm_def Let_def)

lemma grid_set_nonneg:
  "0 \<le> r \<Longrightarrow> 0 \<le> c \<Longrightarrow>
   grid_set g r c v = (if nat r < length g \<and> nat c < length (g ! nat r)
                       then Inr (g[nat r := (g ! nat r)[nat c := v]]) else Inl IndexError)"
  by (auto simp: grid_set_def py_get_def py_set_def py_norm_def Let_def)

lemma set_if_differs_step:
  assumes st: "set_if_differs v r c s = Inr t" and r: "0 \<le> r" and c: "0 \<le> c"
    and v: "v = 0 \<or> v = 1"
    and pre: "\<forall>y. grid_get (snd s) r c = Inr y \<longrightarrow> y = - 1 \<or> y = v"
  shows "progress s t"
    and "\<And>r' c'. 0 \<le> r' \<Longrightarrow> 0 \<le> c' \<Longrightarrow>
           grid_get (snd t) r' c' = (if r' = r \<and> c' = c then Inr v else grid_get (snd s) r' c')"
proof -
  obtain changed g where s: "s = (changed, g)" by (cases s)
  from st s obtain x where x: "grid_get g r c = Inr x"
    by (auto simp: set_if_differs_def split: sum.splits)
  with r c have rng: "nat r < length g" "nat c < length (g ! nat r)" and
    xv: "x = g ! nat r ! nat c"
    by (auto simp: grid_get_nonneg split: if_splits)
  have "progress s t \<and> (\<forall>r' c'. 0 \<le> r' \<longrightarrow> 0 \<le> c' \<longrightarrow>
           grid_get (snd t) r' c' = (if r' = r \<and> c' = c then Inr v else grid_get (snd s) r' c'))"
  proof (cases "x = v")
    case True
    with st s x have "t = s" by (simp add: set_if_differs_def)
    with True x s show ?thesis by (auto simp: progress_refl)
  next
    case False
    with pre s x have x1: "x = - 1" by simp
    from False st s x obtain g' where g': "grid_set g r c v = Inr g'" and t: "t = (True, g')"
      by (auto simp: set_if_differs_def split: sum.splits)
    from g' r c rng have ge: "g' = g[nat r := (g ! nat r)[nat c := v]]"
      by (simp add: grid_set_nonneg)
    have "grid_refines g g'"
      unfolding ge by (rule grid_refines_update) (use rng xv x1 v in \<open>auto simp: cell_refines_def\<close>)
    moreover have "unknown_count g' < unknown_count g"
      unfolding ge by (rule unknown_count_update) (use rng xv x1 v in auto)
    ultimately have "progress s t" by (simp add: progress_def s t)
    moreover have "grid_get g' r' c' = (if r' = r \<and> c' = c then Inr v else grid_get g r' c')"
      if "0 \<le> r'" "0 \<le> c'" for r' c'
      using that r c rng unfolding ge
      by (auto simp: grid_get_nonneg nth_list_update nat_eq_iff)
    ultimately show ?thesis by (simp add: s t)
  qed
  then show "progress s t"
    and "\<And>r' c'. 0 \<le> r' \<Longrightarrow> 0 \<le> c' \<Longrightarrow>
           grid_get (snd t) r' c' = (if r' = r \<and> c' = c then Inr v else grid_get (snd s) r' c')"
    by simp_all
qed

lemma mark_cells_progress:
  assumes "for_each (\<lambda>x. set_if_differs v (fr x) (fc x)) xs s = Inr s'"
    and "v = 0 \<or> v = 1"
    and "\<forall>x \<in> set xs. 0 \<le> fr x \<and> 0 \<le> fc x"
    and "\<forall>x \<in> set xs. \<forall>y. grid_get (snd s) (fr x) (fc x) = Inr y \<longrightarrow> y = - 1 \<or> y = v"
  shows "progress s s' \<and>
         (\<forall>r c. 0 \<le> r \<longrightarrow> 0 \<le> c \<longrightarrow> (\<forall>x \<in> set xs. \<not> (fr x = r \<and> fc x = c)) \<longrightarrow>
            grid_get (snd s') r c = grid_get (snd s) r c)"
  using assms
proof (induction xs arbitrary: s)
  case Nil
  then show ?case by (simp add: progress_refl)
next
  case (Cons x xs)
  from Cons.prems(1) obtain t where
    st: "set_if_differs v (fr x) (fc x) s = Inr t" and
    rest: "for_each (\<lambda>x. set_if_differs v (fr x) (fc x)) xs t = Inr s'"
    by (auto split: sum.splits)
  have nn: "0 \<le> fr x" "0 \<le> fc x" using Cons.prems(3) by simp_all
  have pre: "\<forall>y. grid_get (snd s) (fr x) (fc x) = Inr y \<longrightarrow> y = - 1 \<or> y = v"
    using Cons.prems(4) by simp
  note step = set_if_differs_step [OF st nn Cons.prems(2) pre]
  have pre': "\<forall>z \<in> set xs. \<forall>y. grid_get (snd t) (fr z) (fc z) = Inr y \<longrightarrow> y = - 1 \<or> y = v"
    using Cons.prems(3,4) by (auto simp: step(2))
  have ih: "progress t s' \<and>
         (\<forall>r c. 0 \<le> r \<longrightarrow> 0 \<le> c \<longrightarrow> (\<forall>z \<in> set xs. \<not> (fr z = r \<and> fc z = c)) \<longrightarrow>
            grid_get (snd s') r c = grid_get (snd t) r c)"
    by (rule Cons.IH [OF rest Cons.prems(2) _ pre']) (use Cons.prems(3) in simp)
  have "progress s s'" using step(1) ih by (blast intro: progress_trans)
  moreover have "grid_get (snd s') r c = grid_get (snd s) r c"
    if "0 \<le> r" "0 \<le> c" "\<forall>z \<in> set (x # xs). \<not> (fr z = r \<and> fc z = c)" for r c
    using that ih step(2) [of r c] by auto
  ultimately show ?case by blast
qed

lemma mark_line_progress:
  assumes l1: "for_each (\<lambda>x. set_if_differs 1 (fr x) (fc x)) mf s = Inr s1"
    and l2: "for_each (\<lambda>x. set_if_differs 0 (fr x) (fc x)) me s1 = Inr s'"
    and nn: "\<forall>x \<in> set mf \<union> set me. 0 \<le> fr x \<and> 0 \<le> fc x"
    and dj: "\<forall>x \<in> set mf. \<forall>z \<in> set me. \<not> (fr x = fr z \<and> fc x = fc z)"
    and p1: "\<forall>x \<in> set mf. \<forall>y. grid_get (snd s) (fr x) (fc x) = Inr y \<longrightarrow> y = - 1 \<or> y = 1"
    and p0: "\<forall>x \<in> set me. \<forall>y. grid_get (snd s) (fr x) (fc x) = Inr y \<longrightarrow> y = - 1 \<or> y = 0"
  shows "progress s s'"
proof -
  have a: "progress s s1 \<and>
         (\<forall>r c. 0 \<le> r \<longrightarrow> 0 \<le> c \<longrightarrow> (\<forall>x \<in> set mf. \<not> (fr x = r \<and> fc x = c)) \<longrightarrow>
            grid_get (snd s1) r c = grid_get (snd s) r c)"
    by (rule mark_cells_progress [OF l1 _ _ p1]) (use nn in auto)
  have "\<forall>z \<in> set me. grid_get (snd s1) (fr z) (fc z) = grid_get (snd s) (fr z) (fc z)"
    using a nn dj by auto
  with p0 have p0': "\<forall>x \<in> set me. \<forall>y. grid_get (snd s1) (fr x) (fc x) = Inr y \<longrightarrow> y = - 1 \<or> y = 0"
    by simp
  have "progress s1 s'"
    using mark_cells_progress [OF l2 _ _ p0'] nn by auto
  with a show ?thesis by (blast intro: progress_trans)
qed

lemma deduce_sound:
  assumes d: "deduce_from_possibilities L runs known = Inr (mf, me)"
  shows "\<forall>i \<in> set mf. 0 \<le> i \<and> i < L \<and>
           (nat i < length known \<longrightarrow> known ! nat i = - 1 \<or> known ! nat i = 1)"
    and "\<forall>i \<in> set me. 0 \<le> i \<and> i < L \<and>
           (nat i < length known \<longrightarrow> known ! nat i = - 1 \<or> known ! nat i = 0)"
    and "set mf \<inter> set me = {}"
proof -
  from d obtain ps where ps: "enumerate_line_patterns L runs known = Inr ps"
    by (auto simp: deduce_from_possibilities_def split: sum.splits)
  have "(\<forall>i \<in> set mf. 0 \<le> i \<and> i < L \<and>
           (nat i < length known \<longrightarrow> known ! nat i = - 1 \<or> known ! nat i = 1)) \<and>
        (\<forall>i \<in> set me. 0 \<le> i \<and> i < L \<and>
           (nat i < length known \<longrightarrow> known ! nat i = - 1 \<or> known ! nat i = 0)) \<and>
        set mf \<inter> set me = {}"
  proof (cases "ps = []")
    case True
    with d deduce_eq [OF ps] show ?thesis by simp
  next
    case False
    then obtain p where p: "p \<in> set ps" by (cases ps) auto
    from d deduce_eq [OF ps] False
    have mf: "mf = filter (\<lambda>i. \<forall>p \<in> set ps. p ! nat i = 1) (py_range 0 L)"
      and me: "me = filter (\<lambda>i. \<forall>p \<in> set ps. p ! nat i \<noteq> 1) (py_range 0 L)"
      by simp_all
    note y = enumerate_yields [OF ps p]
    have k: "known ! nat i = - 1 \<or> p ! nat i = known ! nat i"
      if "0 \<le> i" "i < L" "nat i < length known" for i
      using y(3) [of "nat i"] that by simp
    have b: "p ! nat i = 0 \<or> p ! nat i = 1" if "0 \<le> i" "i < L" for i
    proof -
      have "p ! nat i \<in> set p" using that y(1) by simp
      with y(2) show ?thesis by (auto simp: bits_def)
    qed
    have "known ! nat i = - 1 \<or> known ! nat i = 1"
      if "i \<in> set mf" "nat i < length known" for i
      using that k [of i] p by (auto simp: mf py_range_def)
    moreover have "known ! nat i = - 1 \<or> known ! nat i = 0"
      if "i \<in> set me" "nat i < length known" for i
      using that k [of i] b [of i] p by (auto simp: me py_range_def)
    moreover have "set mf \<inter> set me = {}" using p by (auto simp: mf me)
    moreover have "\<forall>i \<in> set mf \<union> set me. 0 \<le> i \<and> i < L"
      by (auto simp: mf me py_range_def)
    ultimately show ?thesis by blast
  qed
  then show "\<forall>i \<in> set mf. 0 \<le> i \<and> i < L \<and>
           (nat i < length known \<longrightarrow> known ! nat i = - 1 \<or> known ! nat i = 1)"
    and "\<forall>i \<in> set me. 0 \<le> i \<and> i < L \<and>
           (nat i < length known \<longrightarrow> known ! nat i = - 1 \<or> known ! nat i = 0)"
    and "set mf \<inter> set me = {}"
    by simp_all
qed

lemma possibility_row_progress:
  assumes pr: "possibility_row puzzle r s = Inr s'" and r: "0 \<le> r"
  shows "progress s s'"
proof -
  from pr obtain known runs mf me s1 where
    kn: "py_get (snd s) r = Inr known" and
    d: "deduce_from_possibilities (size_n puzzle) runs known = Inr (mf, me)" and
    l1: "for_each (\<lambda>c. set_if_differs 1 r c) mf s = Inr s1" and
    l2: "for_each (\<lambda>c. set_if_differs 0 r c) me s1 = Inr s'"
    by (auto simp: possibility_row_def split: sum.splits)
  note ds = deduce_sound [OF d]
  from py_get_InrD [OF kn r] have known: "nat r < length (snd s)" "known = snd s ! nat r"
    by simp_all
  have cell: "y = known ! nat c \<and> nat c < length known"
    if "grid_get (snd s) r c = Inr y" "0 \<le> c" for c y
    using that r known by (auto simp: grid_get_nonneg split: if_splits)
  show ?thesis
  proof (rule mark_line_progress [where fr = "\<lambda>c. r" and fc = "\<lambda>c. c", OF l1 l2])
    show "\<forall>x \<in> set mf \<union> set me. 0 \<le> r \<and> 0 \<le> x" using ds(1,2) r by auto
    show "\<forall>x \<in> set mf. \<forall>z \<in> set me. \<not> (r = r \<and> x = z)" using ds(3) by auto
    show "\<forall>x \<in> set mf. \<forall>y. grid_get (snd s) r x = Inr y \<longrightarrow> y = - 1 \<or> y = 1"
      using ds(1) cell by blast
    show "\<forall>x \<in> set me. \<forall>y. grid_get (snd s) r x = Inr y \<longrightarrow> y = - 1 \<or> y = 0"
      using ds(2) cell by blast
  qed
qed

lemma column_loop:
  "for_each (\<lambda>i col. case grid_get g i c of Inl e \<Rightarrow> Inl e | Inr v \<Rightarrow> Inr (col @ [v])) is acc
     = Inr col \<Longrightarrow>
   length col = length acc + length is \<and>
   (\<forall>k < length is. grid_get g (is ! k) c = Inr (col ! (length acc + k))) \<and>
   take (length acc) col = acc"
proof (induction "is" arbitrary: acc)
  case Nil
  then show ?case by simp
next
  case (Cons i "is")
  from Cons.prems obtain v where v: "grid_get g i c = Inr v" and
    rest: "for_each (\<lambda>i col. case grid_get g i c of Inl e \<Rightarrow> Inl e | Inr v \<Rightarrow> Inr (col @ [v]))
             is (acc @ [v]) = Inr col"
    by (auto split: sum.splits)
  from Cons.IH [OF rest] have
    len: "length col = length acc + 1 + length is" and
    nth: "\<forall>k < length is. grid_get g (is ! k) c = Inr (col ! (length acc + 1 + k))" and
    tk: "take (length acc + 1) col = acc @ [v]"
    by simp_all
  have "take (length acc) col = take (length acc) (take (length acc + 1) col)"
    by (simp add: min_def)
  then have tk': "take (length acc) col = acc" unfolding tk by simp
  have "col ! length acc = take (length acc + 1) col ! length acc" by simp
  then have c0: "col ! length acc = v" unfolding tk by simp
  have "grid_get g ((i # is) ! k) c = Inr (col ! (length acc + k))" if "k < length (i # is)" for k
    using that v c0 nth by (cases k) auto
  with len tk' show ?case by simp
qed

lemma column_eq:
  assumes "column g N c = Inr col"
  shows "length col = nat N" and "\<And>i. 0 \<le> i \<Longrightarrow> i < N \<Longrightarrow> grid_get g i c = Inr (col ! nat i)"
proof -
  from column_loop [OF assms [unfolded column_def]]
  have len: "length col = length (py_range 0 N)" and
    nth: "\<forall>k < length (py_range 0 N). grid_get g (py_range 0 N ! k) c = Inr (col ! k)"
    by simp_all
  show "length col = nat N" using len by (simp add: py_range_def)
  show "grid_get g i c = Inr (col ! nat i)" if "0 \<le> i" "i < N" for i
  proof -
    have "nat i < length (py_range 0 N)" using that by (simp add: py_range_def)
    moreover have "py_range 0 N ! nat i = i" using that by (simp add: py_range_def)
    ultimately show ?thesis using nth by metis
  qed
qed

lemma possibility_col_progress:
  assumes pc: "possibility_col puzzle c s = Inr s'" and c: "0 \<le> c"
  shows "progress s s'"
proof -
  from pc obtain known runs mf me s1 where
    kn: "column (snd s) (size_n puzzle) c = Inr known" and
    d: "deduce_from_possibilities (size_n puzzle) runs known = Inr (mf, me)" and
    l1: "for_each (\<lambda>i. set_if_differs 1 i c) mf s = Inr s1" and
    l2: "for_each (\<lambda>i. set_if_differs 0 i c) me s1 = Inr s'"
    by (auto simp: possibility_col_def split: sum.splits)
  note ds = deduce_sound [OF d]
  note col = column_eq [OF kn]
  have cell: "y = known ! nat i \<and> nat i < length known"
    if "grid_get (snd s) i c = Inr y" "0 \<le> i" "i < size_n puzzle" for i y
    using that col(1) col(2) [of i] by simp
  show ?thesis
  proof (rule mark_line_progress [where fr = "\<lambda>i. i" and fc = "\<lambda>i. c", OF l1 l2])
    show "\<forall>x \<in> set mf \<union> set me. 0 \<le> x \<and> 0 \<le> c" using ds(1,2) c by auto
    show "\<forall>x \<in> set mf. \<forall>z \<in> set me. \<not> (x = z \<and> c = c)" using ds(3) by auto
    show "\<forall>x \<in> set mf. \<forall>y. grid_get (snd s) x c = Inr y \<longrightarrow> y = - 1 \<or> y = 1"
      using ds(1) cell by blast
    show "\<forall>x \<in> set me. \<forall>y. grid_get (snd s) x c = Inr y \<longrightarrow> y = - 1 \<or> y = 0"
      using ds(2) cell by blast
  qed
qed

lemma apply_possibility_pass_progress:
  assumes "apply_possibility_pass puzzle g = Inr s'"
  shows "progress (False, g) s'"
proof -
  from assms obtain s1 where
    a: "for_each (possibility_row puzzle) (py_range 0 (size_n puzzle)) (False, g) = Inr s1" and
    b: "for_each (possibility_col puzzle) (py_range 0 (size_n puzzle)) s1 = Inr s'"
    by (auto simp: apply_possibility_pass_def split: sum.splits)
  have "progress (False, g) s1"
    by (rule for_each_progress [OF a]) (auto simp: in_py_range intro: possibility_row_progress)
  moreover have "progress s1 s'"
    by (rule for_each_progress [OF b]) (auto simp: in_py_range intro: possibility_col_progress)
  ultimately show ?thesis by (rule progress_trans)
qed

lemma pass_refines:
  "apply_overlap_pass puzzle g = Inr (changed, g') \<Longrightarrow> grid_refines g g'"
  "apply_possibility_pass puzzle g = Inr (changed, g') \<Longrightarrow> grid_refines g g'"
  by (auto dest: apply_overlap_pass_progress apply_possibility_pass_progress simp: progress_def)

lemma pass_changed:
  "apply_overlap_pass puzzle g = Inr (True, g') \<Longrightarrow> unknown_count g' < unknown_count g"
  "apply_possibility_pass puzzle g = Inr (True, g') \<Longrightarrow> unknown_count g' < unknown_count g"
  by (auto dest: apply_overlap_pass_progress apply_possibility_pass_progress simp: progress_def)

section \<open>Termination of the solver\<close>

lemma round_progress:
  assumes "apply_overlap_pass puzzle state = Inr (c1, s1)"
    and "apply_possibility_pass puzzle s1 = Inr (c2, s2)"
  shows "grid_refines state s2" and "c1 \<or> c2 \<Longrightarrow> unknown_count s2 < unknown_count state"
proof -
  have a: "progress (False, state) (c1, s1)" by (rule apply_overlap_pass_progress [OF assms(1)])
  have b: "progress (False, s1) (c2, s2)" by (rule apply_possibility_pass_progress [OF assms(2)])
  from a b show "grid_refines state s2"
    by (auto simp: progress_def intro: grid_refines_trans)
  from a b unknown_count_mono [of state s1] unknown_count_mono [of s1 s2]
  show "unknown_count s2 < unknown_count state" if "c1 \<or> c2"
    using that by (auto simp: progress_def)
qed

lemma solve_loop_fuel_enough:
  "unknown_count state < n \<Longrightarrow> \<exists>res. solve_loop_fuel n puzzle state = Some res"
proof (induction n arbitrary: state)
  case 0
  then show ?case by simp
next
  case (Suc n)
  show ?case
  proof (cases "is_puzzle_solved puzzle state")
    case (Inl e)
    then show ?thesis by simp
  next
    case (Inr solved)
    show ?thesis
    proof (cases solved)
      case True
      with Inr show ?thesis by simp
    next
      case False
      show ?thesis
      proof (cases "apply_overlap_pass puzzle state")
        case (Inl e)
        with Inr False show ?thesis by simp
      next
        case o: (Inr x)
        obtain c1 s1 where x: "x = (c1, s1)" by (cases x)
        show ?thesis
        proof (cases "apply_possibility_pass puzzle s1")
          case (Inl e)
          with Inr False o x show ?thesis by simp
        next
          case p: (Inr y)
          obtain c2 s2 where y: "y = (c2, s2)" by (cases y)
          show ?thesis
          proof (cases "c1 \<or> c2")
            case False
            with Inr \<open>\<not> solved\<close> o x p y show ?thesis by simp
          next
            case True
            have "unknown_count s2 < unknown_count state"
              by (rule round_progress(2) [OF o [unfolded x] p [unfolded y] True])
            with Suc.prems have "unknown_count s2 < n" by simp
            from Suc.IH [OF this] obtain res where "solve_loop_fuel n puzzle s2 = Some res"
              by blast
            with Inr \<open>\<not> solved\<close> o x p y True show ?thesis by simp
          qed
        qed
      qed
    qed
  qed
qed

lemma solve_loop_fuel_sound:
  "solve_loop_fuel n puzzle state = Some res \<Longrightarrow> solve_loop puzzle state = Some res"
proof (induction n arbitrary: state)
  case 0
  then show ?case by simp
next
  case (Suc n)
  show ?case
    using Suc.prems Suc.IH
    by (subst solve_loop.simps) (auto split: sum.splits prod.splits if_splits)
qed

lemma unknown_count_initial:
  "unknown_count (replicate n (replicate n (- 1))) = n * n"
  by (simp add: unknown_count_def sum_list_replicate)

lemma solve_loop_total:
  "\<exists>res. solve_loop puzzle state = Some res"
proof -
  obtain res where "solve_loop_fuel (Suc (unknown_count state)) puzzle state = Some res"
    using solve_loop_fuel_enough [of state "Suc (unknown_count state)" puzzle] by auto
  then show ?thesis by (blast dest: solve_loop_fuel_sound)
qed

text \<open>
  Claim C10. \<^verbatim>\<open>solve_nonogram\<close> terminates on every puzzle (with a grid or with an exception;
  no well-formedness is needed for that): a round that changes the grid turns at least one
  unknown cell into a decided one and leaves the decided cells alone, so the number of
  unknown cells, \<open>size * size\<close> at the start, goes down with every productive round, and the
  loop ends within \<open>size * size\<close> productive rounds and one last round.
\<close>

theorem solve_nonogram_terminates:
  "(\<exists>res. solve_nonogram puzzle = Some res) \<and>
   (\<exists>res. solve_loop_fuel (Suc (nat (size_n puzzle) * nat (size_n puzzle))) puzzle
             (replicate (nat (size_n puzzle)) (replicate (nat (size_n puzzle)) (- 1))) = Some res \<and>
           solve_loop puzzle
             (replicate (nat (size_n puzzle)) (replicate (nat (size_n puzzle)) (- 1))) = Some res) \<and>
   unknown_count (replicate (nat (size_n puzzle)) (replicate (nat (size_n puzzle)) (- 1)))
     = nat (size_n puzzle) * nat (size_n puzzle) \<and>
   (\<forall>state c1 s1 c2 s2.
      apply_overlap_pass puzzle state = Inr (c1, s1) \<longrightarrow>
      apply_possibility_pass puzzle s1 = Inr (c2, s2) \<longrightarrow>
      c1 \<or> c2 \<longrightarrow> unknown_count s2 < unknown_count state)"
proof -
  let ?init = "replicate (nat (size_n puzzle)) (replicate (nat (size_n puzzle)) (- 1 :: int))"
  let ?n = "nat (size_n puzzle) * nat (size_n puzzle)"
  have u: "unknown_count ?init = ?n" by (rule unknown_count_initial)
  then have "unknown_count ?init < Suc ?n" by simp
  from solve_loop_fuel_enough [OF this] obtain res where
    f: "solve_loop_fuel (Suc ?n) puzzle ?init = Some res" by blast
  then have l: "solve_loop puzzle ?init = Some res" by (rule solve_loop_fuel_sound)
  have "\<exists>r. solve_nonogram puzzle = Some r"
    using l by (auto simp: solve_nonogram_def Let_def split: sum.splits)
  with f l u round_progress(2) show ?thesis by blast
qed

theorem solve_nonogram_terminates_witness:
  "solve_nonogram \<lparr>size_n = 2, rows = [[2], []], cols = [[1], [1]]\<rparr>
     = Some (Inr [[1, 1], [0, 0]]) \<and>
   apply_overlap_pass \<lparr>size_n = 2, rows = [[2], []], cols = [[1], [1]]\<rparr> [[- 1, - 1], [- 1, - 1]]
     = Inr (True, [[1, 1], [- 1, - 1]]) \<and>
   apply_possibility_pass \<lparr>size_n = 2, rows = [[2], []], cols = [[1], [1]]\<rparr> [[1, 1], [- 1, - 1]]
     = Inr (True, [[1, 1], [0, 0]]) \<and>
   unknown_count [[1, 1], [0, 0]] < unknown_count [[- 1, - 1], [- 1, - 1]]"
proof -
  have a: "solve_nonogram \<lparr>size_n = 2, rows = [[2], []], cols = [[1], [1]]\<rparr>
     = Some (Inr [[1, 1], [0, 0]])" by code_simp
  have b: "apply_overlap_pass \<lparr>size_n = 2, rows = [[2], []], cols = [[1], [1]]\<rparr>
     [[- 1, - 1], [- 1, - 1]] = Inr (True, [[1, 1], [- 1, - 1]])" by code_simp
  have c: "apply_possibility_pass \<lparr>size_n = 2, rows = [[2], []], cols = [[1], [1]]\<rparr>
     [[1, 1], [- 1, - 1]] = Inr (True, [[1, 1], [0, 0]])" by code_simp
  have "unknown_count [[1, 1], [0, 0]] < unknown_count [[- 1, - 1], [- 1, - 1]]"
    using solve_nonogram_terminates [of "\<lparr>size_n = 2, rows = [[2], []], cols = [[1], [1]]\<rparr>"]
      b c by blast
  with a b c show ?thesis by simp
qed

section \<open>Decided cells are kept\<close>

text \<open>
  Claim C9. A pass that returns leaves the shape of the grid as it was and changes a cell
  only from unknown (\<open>-1\<close>) to 0 or 1: a cell that holds 0 or 1 before
  \<^verbatim>\<open>apply_overlap_pass\<close> or \<^verbatim>\<open>apply_possibility_pass\<close> holds the same value after it.
\<close>

theorem passes_keep_decided_values:
  assumes "apply_overlap_pass puzzle grid = Inr (changed, grid') \<or>
           apply_possibility_pass puzzle grid = Inr (changed, grid')"
  shows "length grid' = length grid \<and>
         (\<forall>r < length grid. length (grid' ! r) = length (grid ! r) \<and>
            (\<forall>c < length (grid ! r).
               grid' ! r ! c = grid ! r ! c \<or>
               (grid ! r ! c = - 1 \<and> (grid' ! r ! c = 0 \<or> grid' ! r ! c = 1))))"
proof -
  from assms have "grid_refines grid grid'" by (auto dest: pass_refines)
  then show ?thesis unfolding grid_refines_iff by blast
qed

theorem passes_keep_decided_values_witness:
  "apply_overlap_pass \<lparr>size_n = 2, rows = [[2], []], cols = [[1], [1]]\<rparr> [[- 1, 0], [0, - 1]]
     = Inr (True, [[1, 0], [0, - 1]]) \<and>
   apply_possibility_pass \<lparr>size_n = 2, rows = [[1], [1]], cols = [[1], [1]]\<rparr> [[1, - 1], [- 1, - 1]]
     = Inr (True, [[1, 0], [0, 1]]) \<and>
   [[1, 0], [0, - 1 :: int]] ! 0 ! 1 = [[- 1, 0], [0, - 1]] ! 0 ! 1 \<and>
   [[1, 0], [0, 1 :: int]] ! 0 ! 0 = [[1, - 1], [- 1, - 1]] ! 0 ! 0"
proof -
  have a: "apply_overlap_pass \<lparr>size_n = 2, rows = [[2], []], cols = [[1], [1]]\<rparr>
     [[- 1, 0], [0, - 1]] = Inr (True, [[1, 0], [0, - 1]])" by code_simp
  have b: "apply_possibility_pass \<lparr>size_n = 2, rows = [[1], [1]], cols = [[1], [1]]\<rparr>
     [[1, - 1], [- 1, - 1]] = Inr (True, [[1, 0], [0, 1]])" by code_simp
  have "length [[1, 0], [0, - 1 :: int]] = length [[- 1, 0], [0, - 1 :: int]]"
    using passes_keep_decided_values [OF disjI1 [OF a]] by blast
  moreover have "length [[1, 0], [0, 1 :: int]] = length [[1, - 1], [- 1, - 1 :: int]]"
    using passes_keep_decided_values [OF disjI2 [OF b]] by blast
  ultimately show ?thesis using a b by simp
qed

text \<open>
  Claim C8. Over a round, one \<^verbatim>\<open>apply_overlap_pass\<close> followed by one
  \<^verbatim>\<open>apply_possibility_pass\<close>, the set of decided cells (cells holding 0 or 1) does not
  shrink: every cell decided before the round is decided after it.
\<close>

theorem round_keeps_decided_cells:
  assumes "apply_overlap_pass puzzle grid = Inr (changed1, grid1)"
    and "apply_possibility_pass puzzle grid1 = Inr (changed2, grid2)"
  shows "decided_cells grid \<subseteq> decided_cells grid2"
proof -
  have "grid_refines grid grid2" by (rule round_progress(1) [OF assms])
  then show ?thesis
    unfolding grid_refines_iff decided_cells_def by fastforce
qed

theorem round_keeps_decided_cells_witness:
  "apply_overlap_pass \<lparr>size_n = 2, rows = [[1], [1]], cols = [[1], [1]]\<rparr> [[1, - 1], [- 1, - 1]]
     = Inr (False, [[1, - 1], [- 1, - 1]]) \<and>
   apply_possibility_pass \<lparr>size_n = 2, rows = [[1], [1]], cols = [[1], [1]]\<rparr> [[1, - 1], [- 1, - 1]]
     = Inr (True, [[1, 0], [0, 1]]) \<and>
   decided_cells [[1, - 1], [- 1, - 1]] \<subseteq> decided_cells [[1, 0], [0, 1]] \<and>
   (0, 0) \<in> decided_cells [[1, - 1], [- 1, - 1]]"
proof -
  have a: "apply_overlap_pass \<lparr>size_n = 2, rows = [[1], [1]], cols = [[1], [1]]\<rparr>
     [[1, - 1], [- 1, - 1]] = Inr (False, [[1, - 1], [- 1, - 1]])" by code_simp
  have b: "apply_possibility_pass \<lparr>size_n = 2, rows = [[1], [1]], cols = [[1], [1]]\<rparr>
     [[1, - 1], [- 1, - 1]] = Inr (True, [[1, 0], [0, 1]])" by code_simp
  have c: "(0, 0) \<in> decided_cells [[1, - 1], [- 1, - 1]]" by (simp add: decided_cells_def)
  from round_keeps_decided_cells [OF a b] a b c show ?thesis by simp
qed

section \<open>What the solver returns\<close>

text \<open>
  Claim C1 fails on the code. \<^verbatim>\<open>solve_nonogram\<close> returns the working grid whatever it
  holds: for the 2 by 2 puzzle with the clue \<open>[1]\<close> on every line, propagation changes
  nothing and the result is the grid of four unknown cells; for the 1 by 1 puzzle with row
  clue \<open>[1]\<close> and column clue \<open>[]\<close>, which has no solution, the result is a grid, not the
  not-solvable value.
\<close>

theorem solve_nonogram_returns_partial_grid:
  "solve_nonogram \<lparr>size_n = 2, rows = [[1], [1]], cols = [[1], [1]]\<rparr>
     = Some (Inr [[- 1, - 1], [- 1, - 1]]) \<and>
   \<not> is_grid_complete [[- 1, - 1], [- 1, - 1]] \<and>
   solve_nonogram \<lparr>size_n = 1, rows = [[1]], cols = [[]]\<rparr> = Some (Inr [[1]]) \<and>
   is_puzzle_solved \<lparr>size_n = 1, rows = [[1]], cols = [[]]\<rparr> [[1]] = Inr False"
proof -
  have "solve_nonogram \<lparr>size_n = 2, rows = [[1], [1]], cols = [[1], [1]]\<rparr>
     = Some (Inr [[- 1, - 1], [- 1, - 1]])" by code_simp
  moreover have "\<not> is_grid_complete [[- 1, - 1], [- 1, - 1]]" by code_simp
  moreover have "solve_nonogram \<lparr>size_n = 1, rows = [[1]], cols = [[]]\<rparr> = Some (Inr [[1]])"
    by code_simp
  moreover have "is_puzzle_solved \<lparr>size_n = 1, rows = [[1]], cols = [[]]\<rparr> [[1]] = Inr False"
    by code_simp
  ultimately show ?thesis by blast
qed

lemma list4: "length xs = 4 \<Longrightarrow> \<exists>a b c d. xs = [a, b, c, d]"
  by (auto simp: numeral_eq_Suc length_Suc_conv)

lemma row4_no_run:
  "does_line_satisfy_clues [a, b, c, d] [] \<Longrightarrow> [a, b, c, d] = [0, 0, 0, 0]"
  by (auto simp: does_line_satisfy_clues_def is_line_fully_known_def line_groups_of_ones_def
           split: if_splits)

lemma row4_run_2:
  "does_line_satisfy_clues [a, b, c, d] [2] \<Longrightarrow>
   [a, b, c, d] = [1, 1, 0, 0] \<or> [a, b, c, d] = [0, 1, 1, 0] \<or> [a, b, c, d] = [0, 0, 1, 1]"
  by (auto simp: does_line_satisfy_clues_def is_line_fully_known_def line_groups_of_ones_def
           split: if_splits)

lemma row4_runs_1_1:
  "does_line_satisfy_clues [a, b, c, d] [1, 1] \<Longrightarrow>
   [a, b, c, d] = [1, 0, 1, 0] \<or> [a, b, c, d] = [1, 0, 0, 1] \<or> [a, b, c, d] = [0, 1, 0, 1]"
  by (auto simp: does_line_satisfy_clues_def is_line_fully_known_def line_groups_of_ones_def
           split: if_splits)

text \<open>
  The puzzle on which the search is missed has one solution among the 4 by 4 grids.
\<close>

lemma stalled_puzzle_unique:
  assumes len: "length g = 4" "\<forall>row \<in> set g. length row = 4"
    and sol: "is_puzzle_solved
      \<lparr>size_n = 4, rows = [[], [], [2], [1, 1]], cols = [[1], [1], [1], [1]]\<rparr> g = Inr True"
  shows "g = [[0, 0, 0, 0], [0, 0, 0, 0], [0, 1, 1, 0], [1, 0, 0, 1]]"
proof -
  let ?P = "\<lparr>size_n = 4, rows = [[], [], [2], [1, 1]], cols = [[1], [1], [1], [1]]\<rparr>"
  from list4 [OF len(1)] obtain r0 r1 r2 r3 where g: "g = [r0, r1, r2, r3]" by blast
  from sol have rs: "rows_satisfied g (enumerate 0 [[], [], [2], [1, 1]]) = Inr True"
    by (auto simp: is_puzzle_solved_def split: if_splits sum.splits)
  then have sat: "does_line_satisfy_clues r0 []" "does_line_satisfy_clues r1 []"
    "does_line_satisfy_clues r2 [2]" "does_line_satisfy_clues r3 [1, 1]"
    by (auto simp: g py_get_def py_norm_def split: if_splits)
  from len(2) g list4 obtain a0 b0 c0 d0 a1 b1 c1 d1 a2 b2 c2 d2 a3 b3 c3 d3 where
    r: "r0 = [a0, b0, c0, d0]" "r1 = [a1, b1, c1, d1]" "r2 = [a2, b2, c2, d2]"
       "r3 = [a3, b3, c3, d3]"
    by (metis list.set_intros(1,2))
  have z: "r0 = [0, 0, 0, 0]" "r1 = [0, 0, 0, 0]"
    using sat(1,2) row4_no_run unfolding r by blast+
  have two: "r2 = [1, 1, 0, 0] \<or> r2 = [0, 1, 1, 0] \<or> r2 = [0, 0, 1, 1]"
    using sat(3) row4_run_2 unfolding r by blast
  have one: "r3 = [1, 0, 1, 0] \<or> r3 = [1, 0, 0, 1] \<or> r3 = [0, 1, 0, 1]"
    using sat(4) row4_runs_1_1 unfolding r by blast
  have bad:
    "is_puzzle_solved ?P [[0, 0, 0, 0], [0, 0, 0, 0], [1, 1, 0, 0], [1, 0, 1, 0]] = Inr False"
    "is_puzzle_solved ?P [[0, 0, 0, 0], [0, 0, 0, 0], [1, 1, 0, 0], [1, 0, 0, 1]] = Inr False"
    "is_puzzle_solved ?P [[0, 0, 0, 0], [0, 0, 0, 0], [1, 1, 0, 0], [0, 1, 0, 1]] = Inr False"
    "is_puzzle_solved ?P [[0, 0, 0, 0], [0, 0, 0, 0], [0, 1, 1, 0], [1, 0, 1, 0]] = Inr False"
    "is_puzzle_solved ?P [[0, 0, 0, 0], [0, 0, 0, 0], [0, 1, 1, 0], [0, 1, 0, 1]] = Inr False"
    "is_puzzle_solved ?P [[0, 0, 0, 0], [0, 0, 0, 0], [0, 0, 1, 1], [1, 0, 1, 0]] = Inr False"
    "is_puzzle_solved ?P [[0, 0, 0, 0], [0, 0, 0, 0], [0, 0, 1, 1], [1, 0, 0, 1]] = Inr False"
    "is_puzzle_solved ?P [[0, 0, 0, 0], [0, 0, 0, 0], [0, 0, 1, 1], [0, 1, 0, 1]] = Inr False"
    by code_simp+
  from two one show ?thesis
    using sol bad unfolding g z by auto
qed

text \<open>
  Claim C2 fails on the code: there is no search. The 4 by 4 puzzle with the row clues
  \<open>[], [], [2], [1, 1]\<close> and the clue \<open>[1]\<close> on every column has the single
  solution \<open>0000 / 0000 / 0110 / 1001\<close>; propagation decides the two empty rows and stalls, and
  \<^verbatim>\<open>solve_nonogram\<close> returns the grid with the eight cells of the last two rows unknown.
\<close>

theorem solve_nonogram_stalls_without_search:
  "solve_nonogram \<lparr>size_n = 4, rows = [[], [], [2], [1, 1]], cols = [[1], [1], [1], [1]]\<rparr>
     = Some (Inr [[0, 0, 0, 0], [0, 0, 0, 0], [- 1, - 1, - 1, - 1], [- 1, - 1, - 1, - 1]]) \<and>
   is_puzzle_solved \<lparr>size_n = 4, rows = [[], [], [2], [1, 1]], cols = [[1], [1], [1], [1]]\<rparr>
     [[0, 0, 0, 0], [0, 0, 0, 0], [0, 1, 1, 0], [1, 0, 0, 1]] = Inr True \<and>
   is_puzzle_solved \<lparr>size_n = 4, rows = [[], [], [2], [1, 1]], cols = [[1], [1], [1], [1]]\<rparr>
     [[0, 0, 0, 0], [0, 0, 0, 0], [- 1, - 1, - 1, - 1], [- 1, - 1, - 1, - 1]] = Inr False"
proof -
  have "solve_nonogram \<lparr>size_n = 4, rows = [[], [], [2], [1, 1]], cols = [[1], [1], [1], [1]]\<rparr>
     = Some (Inr [[0, 0, 0, 0], [0, 0, 0, 0], [- 1, - 1, - 1, - 1], [- 1, - 1, - 1, - 1]])"
    by code_simp
  moreover have "is_puzzle_solved
     \<lparr>size_n = 4, rows = [[], [], [2], [1, 1]], cols = [[1], [1], [1], [1]]\<rparr>
     [[0, 0, 0, 0], [0, 0, 0, 0], [0, 1, 1, 0], [1, 0, 0, 1]] = Inr True"
    by code_simp
  moreover have "is_puzzle_solved
     \<lparr>size_n = 4, rows = [[], [], [2], [1, 1]], cols = [[1], [1], [1], [1]]\<rparr>
     [[0, 0, 0, 0], [0, 0, 0, 0], [- 1, - 1, - 1, - 1], [- 1, - 1, - 1, - 1]] = Inr False"
    by code_simp
  ultimately show ?thesis by blast
qed

text \<open>
  Claim C3 fails on the code: the loop has no contradiction outcome. In the 1 by 1 puzzle
  with row clue \<open>[1]\<close> and column clue \<open>[]\<close> the overlap pass fills the cell, and then the
  column has no pattern left: the deducer returns two empty lists, the possibility pass
  reports no change, and the loop goes into a second round and leaves as on a stall, with
  the grid. With row clue \<open>[2]\<close> and column clue \<open>[1]\<close> the row has negative slack, the
  overlap deducer returns the empty list for it, and the result is the same grid.
\<close>

theorem solve_nonogram_ignores_contradiction:
  "enumerate_line_patterns 1 [] [1] = Inr [] \<and>
   deduce_from_possibilities 1 [] [1] = Inr ([], []) \<and>
   apply_overlap_pass \<lparr>size_n = 1, rows = [[1]], cols = [[]]\<rparr> [[- 1]] = Inr (True, [[1]]) \<and>
   apply_possibility_pass \<lparr>size_n = 1, rows = [[1]], cols = [[]]\<rparr> [[1]] = Inr (False, [[1]]) \<and>
   solve_loop_fuel 1 \<lparr>size_n = 1, rows = [[1]], cols = [[]]\<rparr> [[- 1]] = None \<and>
   solve_loop_fuel 2 \<lparr>size_n = 1, rows = [[1]], cols = [[]]\<rparr> [[- 1]] = Some (Inr [[1]]) \<and>
   solve_nonogram \<lparr>size_n = 1, rows = [[1]], cols = [[]]\<rparr> = Some (Inr [[1]]) \<and>
   slack 1 [2] < 0 \<and> overlap_fill_line 1 [2] = [] \<and>
   solve_nonogram \<lparr>size_n = 1, rows = [[2]], cols = [[1]]\<rparr> = Some (Inr [[1]])"
proof -
  have "enumerate_line_patterns 1 [] [1] = Inr []" by code_simp
  moreover have "deduce_from_possibilities 1 [] [1] = Inr ([], [])" by code_simp
  moreover have "apply_overlap_pass \<lparr>size_n = 1, rows = [[1]], cols = [[]]\<rparr> [[- 1]]
      = Inr (True, [[1]])" by code_simp
  moreover have "apply_possibility_pass \<lparr>size_n = 1, rows = [[1]], cols = [[]]\<rparr> [[1]]
      = Inr (False, [[1]])" by code_simp
  moreover have "solve_loop_fuel 1 \<lparr>size_n = 1, rows = [[1]], cols = [[]]\<rparr> [[- 1]] = None"
    by code_simp
  moreover have "solve_loop_fuel 2 \<lparr>size_n = 1, rows = [[1]], cols = [[]]\<rparr> [[- 1]]
      = Some (Inr [[1]])" by code_simp
  moreover have "solve_nonogram \<lparr>size_n = 1, rows = [[1]], cols = [[]]\<rparr> = Some (Inr [[1]])"
    by code_simp
  moreover have "slack 1 [2] < 0" by (simp add: slack_def)
  moreover have "overlap_fill_line 1 [2] = []" by code_simp
  moreover have "solve_nonogram \<lparr>size_n = 1, rows = [[2]], cols = [[1]]\<rparr> = Some (Inr [[1]])"
    by code_simp
  ultimately show ?thesis by blast
qed

end
